theory Spec2Isabelle
  imports Main
begin

section \<open>Outcomes of a call\<close>

text \<open>
  A Go call either returns, panics, blocks for ever on a mutex that is held, or (in this
  model only) runs out of the fuel that bounds the depth of the recursion.
\<close>

datatype panic =
    MissingCancelError
  | CloseOfClosedChannel
  | CloseOfNilChannel
  | NilDereference
  | IndexOutOfRange

datatype 'a outcome = Returns 'a | Panics panic | Blocks | OutOfFuel

text \<open>
  \<open>returns f r\<close>: the call \<open>f\<close> returns \<open>r\<close> for every sufficiently large amount of fuel.
\<close>

definition returns :: "(nat \<Rightarrow> 'a outcome) \<Rightarrow> 'a \<Rightarrow> bool" where
  "returns f r = (\<exists>n. \<forall>k. n \<le> k \<longrightarrow> f k = Returns r)"

section \<open>The cancellation tree (ctx.go, type context)\<close>

type_synonym addr = nat

datatype error = Canceled | Failure string

text \<open>A channel made by \<open>make(chan struct{})\<close>: open until \<open>close\<close> is called on it.\<close>

datatype chan = Open | Closed

text \<open>
  The struct \<open>context\<close>. \<open>mu\<close> is True while the mutex is held; \<open>children\<close> is the key
  set of the map (None is the nil map); \<open>donec\<close> is the field \<open>done\<close> (None is the nil
  channel); \<open>err\<close> is None for the nil error. Objects live in a heap, a pointer is an index
  into it, and a pointer outside the heap stands for nil. The field \<open>value\<close>, the pointer
  back to the \<open>ctx\<close>, is read by none of the functions below and is left out.
\<close>

record context_t =
  parent :: "addr option"
  mu :: bool
  children :: "addr list option"
  donec :: "chan option"
  err :: "error option"

type_synonym heap = "context_t list"

definition upd :: "addr \<Rightarrow> (context_t \<Rightarrow> context_t) \<Rightarrow> heap \<Rightarrow> heap" where
  "upd c f h = h[c := f (h ! c)]"

fun keys :: "addr list option \<Rightarrow> addr list" where
  "keys None = []"
| "keys (Some ks) = ks"

definition Done :: "addr \<Rightarrow> heap \<Rightarrow> chan option outcome" where
  "Done c h = (if c < length h then Returns (donec (h ! c)) else Panics NilDereference)"

definition Err :: "addr \<Rightarrow> heap \<Rightarrow> error option outcome" where
  "Err c h =
     (if \<not> c < length h then Panics NilDereference
      else if mu (h ! c) then Blocks
      else Returns (err (h ! c)))"

text \<open>The loop \<open>for child := range c.children { child.cancel(false, err) }\<close>.\<close>

fun for_children :: "(addr \<Rightarrow> heap \<Rightarrow> heap outcome) \<Rightarrow> addr list \<Rightarrow> heap \<Rightarrow> heap outcome" where
  "for_children f [] h = Returns h"
| "for_children f (child # ks) h =
     (case f child h of
        Returns h' \<Rightarrow> for_children f ks h'
      | Panics p \<Rightarrow> Panics p
      | Blocks \<Rightarrow> Blocks
      | OutOfFuel \<Rightarrow> OutOfFuel)"

text \<open>
  \<open>func (c *context) cancel(removeFromParent bool, err error)\<close>, line by line. The first
  argument is the fuel.
\<close>

primrec cancel :: "nat \<Rightarrow> addr \<Rightarrow> bool \<Rightarrow> error option \<Rightarrow> heap \<Rightarrow> heap outcome" where
  "cancel 0 c removeFromParent e h = OutOfFuel"
| "cancel (Suc n) c removeFromParent e h =
     (if e = None then Panics MissingCancelError
      else if \<not> c < length h then Panics NilDereference
      else if mu (h ! c) then Blocks
      else
        let h1 = upd c (\<lambda>x. x\<lparr>mu := True\<rparr>) h;
            h2 = upd c (\<lambda>x. x\<lparr>err := e\<rparr>) h1
        in (case donec (h2 ! c) of
              None \<Rightarrow> Panics CloseOfNilChannel
            | Some Closed \<Rightarrow> Panics CloseOfClosedChannel
            | Some Open \<Rightarrow>
                let h3 = upd c (\<lambda>x. x\<lparr>donec := Some Closed\<rparr>) h2
                in (case for_children (\<lambda>child. cancel n child False e)
                          (keys (children (h3 ! c))) h3 of
                      Returns h4 \<Rightarrow>
                        let h5 = upd c (\<lambda>x. x\<lparr>children := None\<rparr>) h4;
                            h6 = upd c (\<lambda>x. x\<lparr>mu := False\<rparr>) h5
                        in Returns
                             (if removeFromParent
                              then (case children (h6 ! c) of
                                      None \<Rightarrow> h6
                                    | Some ks \<Rightarrow>
                                        upd c (\<lambda>x. x\<lparr>children := Some (removeAll c ks)\<rparr>) h6)
                              else h6)
                    | Panics p \<Rightarrow> Panics p
                    | Blocks \<Rightarrow> Blocks
                    | OutOfFuel \<Rightarrow> OutOfFuel)))"

text \<open>\<open>func propagateCancel(p *context, child canceler)\<close>.\<close>

definition propagateCancel :: "nat \<Rightarrow> addr \<Rightarrow> addr \<Rightarrow> heap \<Rightarrow> heap outcome" where
  "propagateCancel n p child h =
     (if \<not> p < length h then Panics NilDereference
      else if donec (h ! p) = None then Returns h
      else if mu (h ! p) then Blocks
      else
        let h1 = upd p (\<lambda>x. x\<lparr>mu := True\<rparr>) h
        in if err (h1 ! p) \<noteq> None
           then (case cancel n child False (err (h1 ! p)) h1 of
                   Returns h2 \<Rightarrow> Returns (upd p (\<lambda>x. x\<lparr>mu := False\<rparr>) h2)
                 | Panics q \<Rightarrow> Panics q
                 | Blocks \<Rightarrow> Blocks
                 | OutOfFuel \<Rightarrow> OutOfFuel)
           else
             let h2 = (if children (h1 ! p) = None
                       then upd p (\<lambda>x. x\<lparr>children := Some []\<rparr>) h1 else h1);
                 h3 = upd p (\<lambda>x. x\<lparr>children := Some (List.insert child (keys (children x)))\<rparr>) h2
             in Returns (upd p (\<lambda>x. x\<lparr>mu := False\<rparr>) h3))"

section \<open>The handler chain cursor (ctx.go, type handlers)\<close>

text \<open>
  A \<open>Manage\<close> is a Go function value \<open>func(Ctx)\<close>. Its model is a label and the sequence
  of calls its body makes on the context it is given: \<open>Next()\<close>, \<open>push(fn)\<close> and
  \<open>rerun(managers...)\<close>. Anything else a handler does leaves the cursor alone.
\<close>

datatype manage = Manage string "call list"
and call = CallNext | CallPush manage | CallRerun "manage list"

fun body :: "manage \<Rightarrow> call list" where
  "body (Manage l cs) = cs"

text \<open>The struct \<open>handlers\<close>; \<open>index\<close> is an \<open>int8\<close>.\<close>

record handlers =
  index :: int
  managers :: "manage list"
  deferred :: "manage list"

text \<open>Conversion to \<open>int8\<close>, and \<open>int8\<close> arithmetic: the value wraps into -128..127.\<close>

definition int8 :: "int \<Rightarrow> int" where
  "int8 x = (x + 128) mod 256 - 128"

definition defaulthandlers :: handlers where
  "defaulthandlers = \<lparr>index = - 1, managers = [], deferred = []\<rparr>"

section \<open>The request context (ctx.go, type ctx)\<close>

type_synonym ref = nat

text \<open>
  The struct \<open>ctx\<close>: \<open>ctx_context\<close> and \<open>ctx_handlers\<close> are the embedded pointers
  \<open>*context\<close> and \<open>*handlers\<close>; the request, the response writer, the session and the data
  bag are references to objects of the collaborators. The embedded \<open>*engine.Result\<close>,
  \<open>xrr.Erroror\<close> and \<open>Extensor\<close> take no part in the functions below and are left out.
\<close>

record ctx =
  ctx_context :: "addr option"
  ctx_handlers :: addr
  ctx_rw :: "ref option"
  ctx_RW :: "ref option"
  ctx_Request :: "ref option"
  ctx_Session :: "ref option"
  ctx_Data :: "ref option"

text \<open>
  What a run can be seen to do: the handler invoked by \<open>Next\<close>, the finalizer invoked by
  \<open>Run\<close>, the hook \<open>PostProcess\<close> called by \<open>Cancel\<close>.
\<close>

datatype event = Handler manage | Finalizer manage | PostProcess

record world =
  contexts :: heap
  cursors :: "handlers list"
  trace :: "event list"

definition valid :: "ctx \<Rightarrow> world \<Rightarrow> bool" where
  "valid c w = (ctx_handlers c < length (cursors w))"

definition cur :: "ctx \<Rightarrow> world \<Rightarrow> handlers" where
  "cur c w = cursors w ! ctx_handlers c"

definition set_cur :: "ctx \<Rightarrow> handlers \<Rightarrow> world \<Rightarrow> world" where
  "set_cur c x w = w\<lparr>cursors := (cursors w)[ctx_handlers c := x]\<rparr>"

definition emit :: "event \<Rightarrow> world \<Rightarrow> world" where
  "emit ev w = w\<lparr>trace := trace w @ [ev]\<rparr>"

text \<open>\<open>func (c *ctx) push(fn Manage)\<close>.\<close>

definition push :: "ctx \<Rightarrow> manage \<Rightarrow> world \<Rightarrow> world outcome" where
  "push c fn w =
     (if \<not> valid c w then Panics NilDereference
      else Returns (set_cur c ((cur c w)\<lparr>deferred := deferred (cur c w) @ [fn]\<rparr>) w))"

text \<open>
  \<open>Next\<close>, its loop (with the length \<open>s\<close> read once, before the loop), \<open>rerun\<close>, and the
  execution of the body of a \<open>Manage\<close>. The first argument is the fuel.
\<close>

fun Next :: "nat \<Rightarrow> ctx \<Rightarrow> world \<Rightarrow> world outcome"
and Next_loop :: "nat \<Rightarrow> int \<Rightarrow> ctx \<Rightarrow> world \<Rightarrow> world outcome"
and rerun :: "nat \<Rightarrow> ctx \<Rightarrow> manage list \<Rightarrow> world \<Rightarrow> world outcome"
and exec :: "nat \<Rightarrow> call list \<Rightarrow> ctx \<Rightarrow> world \<Rightarrow> world outcome"
where
  "Next 0 c w = OutOfFuel"
| "Next (Suc n) c w =
     (if \<not> valid c w then Panics NilDereference
      else
        let w1 = set_cur c ((cur c w)\<lparr>index := int8 (index (cur c w) + 1)\<rparr>) w;
            s = int8 (int (length (managers (cur c w1))))
        in Next_loop n s c w1)"
| "Next_loop 0 s c w = OutOfFuel"
| "Next_loop (Suc n) s c w =
     (if index (cur c w) < s
      then
        (if index (cur c w) < 0 \<or> int (length (managers (cur c w))) \<le> index (cur c w)
         then Panics IndexOutOfRange
         else
           let fn = managers (cur c w) ! nat (index (cur c w))
           in (case exec n (body fn) c (emit (Handler fn) w) of
                 Returns w1 \<Rightarrow>
                   Next_loop n s c
                     (set_cur c ((cur c w1)\<lparr>index := int8 (index (cur c w1) + 1)\<rparr>) w1)
               | Panics p \<Rightarrow> Panics p
               | Blocks \<Rightarrow> Blocks
               | OutOfFuel \<Rightarrow> OutOfFuel))
      else Returns w)"
| "rerun 0 c ms w = OutOfFuel"
| "rerun (Suc n) c ms w =
     (if \<not> valid c w then Panics NilDereference
      else
        let w1 = (if index (cur c w) \<noteq> - 1
                  then set_cur c ((cur c w)\<lparr>index := - 1\<rparr>) w else w);
            w2 = set_cur c ((cur c w1)\<lparr>managers := ms\<rparr>) w1
        in Next n c w2)"
| "exec 0 cs c w = OutOfFuel"
| "exec (Suc n) [] c w = Returns w"
| "exec (Suc n) (CallNext # cs) c w =
     (case Next n c w of
        Returns w1 \<Rightarrow> exec n cs c w1
      | Panics p \<Rightarrow> Panics p
      | Blocks \<Rightarrow> Blocks
      | OutOfFuel \<Rightarrow> OutOfFuel)"
| "exec (Suc n) (CallPush fn # cs) c w =
     (case push c fn w of
        Returns w1 \<Rightarrow> exec n cs c w1
      | Panics p \<Rightarrow> Panics p
      | Blocks \<Rightarrow> Blocks
      | OutOfFuel \<Rightarrow> OutOfFuel)"
| "exec (Suc n) (CallRerun ms # cs) c w =
     (case rerun n c ms w of
        Returns w1 \<Rightarrow> exec n cs c w1
      | Panics p \<Rightarrow> Panics p
      | Blocks \<Rightarrow> Blocks
      | OutOfFuel \<Rightarrow> OutOfFuel)"

text \<open>The loop \<open>for _, fn := range c.deferred { fn(c) }\<close> over the slice read once.\<close>

fun for_deferred :: "nat \<Rightarrow> manage list \<Rightarrow> ctx \<Rightarrow> world \<Rightarrow> world outcome" where
  "for_deferred n [] c w = Returns w"
| "for_deferred n (fn # fns) c w =
     (case exec n (body fn) c (emit (Finalizer fn) w) of
        Returns w1 \<Rightarrow> for_deferred n fns c w1
      | Panics p \<Rightarrow> Panics p
      | Blocks \<Rightarrow> Blocks
      | OutOfFuel \<Rightarrow> OutOfFuel)"

text \<open>
  \<open>func (c *ctx) Run()\<close>. The closure \<open>func(c Ctx) { c.Call("release") }\<close> calls the
  extension registered as "release", which is not part of these sources: it is the
  parameter \<open>release\<close>.
\<close>

definition Run :: "nat \<Rightarrow> manage \<Rightarrow> ctx \<Rightarrow> world \<Rightarrow> world outcome" where
  "Run n release c w =
     (case push c release w of
        Returns w1 \<Rightarrow>
          (case Next n c w1 of
             Returns w2 \<Rightarrow> for_deferred n (deferred (cur c w2)) c w2
           | Panics p \<Rightarrow> Panics p
           | Blocks \<Rightarrow> Blocks
           | OutOfFuel \<Rightarrow> OutOfFuel)
      | Panics p \<Rightarrow> Panics p
      | Blocks \<Rightarrow> Blocks
      | OutOfFuel \<Rightarrow> OutOfFuel)"

text \<open>\<open>func (c *ctx) Cancel()\<close>; the hook \<open>PostProcess\<close> is recorded in the trace.\<close>

definition Cancel :: "nat \<Rightarrow> ctx \<Rightarrow> world \<Rightarrow> world outcome" where
  "Cancel n c w =
     (let w1 = emit PostProcess w
      in case ctx_context c of
           None \<Rightarrow> Panics NilDereference
         | Some a \<Rightarrow>
             (case cancel n a True (Some Canceled) (contexts w1) of
                Returns h \<Rightarrow> Returns (w1\<lparr>contexts := h\<rparr>)
              | Panics p \<Rightarrow> Panics p
              | Blocks \<Rightarrow> Blocks
              | OutOfFuel \<Rightarrow> OutOfFuel))"

text \<open>
  \<open>func (c *ctx) reset(rq, rw, m)\<close>: a new \<open>context\<close> and a new \<open>handlers\<close> are allocated
  at the end of their heaps. \<open>c.rw.reset(rw)\<close> binds the writer.
\<close>

definition reset :: "ctx \<Rightarrow> ref option \<Rightarrow> ref option \<Rightarrow> manage list \<Rightarrow> world \<Rightarrow> ctx \<times> world" where
  "reset c rq rw m w =
     (let c1 = c\<lparr>ctx_Request := rq\<rparr>;
          c2 = c1\<lparr>ctx_rw := rw\<rparr>;
          a = length (contexts w);
          w1 = w\<lparr>contexts := contexts w @
                 [\<lparr>parent = None, mu = False, children = None, donec = Some Open, err = None\<rparr>]\<rparr>;
          c3 = c2\<lparr>ctx_context := Some a\<rparr>;
          p = length (cursors w1);
          w2 = w1\<lparr>cursors := cursors w1 @ [defaulthandlers]\<rparr>;
          c4 = c3\<lparr>ctx_handlers := p\<rparr>;
          w3 = set_cur c4 ((cur c4 w2)\<lparr>managers := m\<rparr>) w2
      in (c4, w3))"

text \<open>\<open>func (c *ctx) replicate() *ctx\<close>: the copy \<open>rcopy\<close> keeps every field but \<open>context\<close>.\<close>

definition replicate_ctx :: "nat \<Rightarrow> ctx \<Rightarrow> world \<Rightarrow> (ctx \<times> world) outcome" where
  "replicate_ctx n c w =
     (let child = length (contexts w);
          h = contexts w @
                [\<lparr>parent = ctx_context c, mu = False, children = None, donec = Some Open, err = None\<rparr>]
      in case ctx_context c of
           None \<Rightarrow> Panics NilDereference
         | Some p \<Rightarrow>
             (case propagateCancel n p child h of
                Returns h1 \<Rightarrow> Returns (c\<lparr>ctx_context := Some child\<rparr>, w\<lparr>contexts := h1\<rparr>)
              | Panics q \<Rightarrow> Panics q
              | Blocks \<Rightarrow> Blocks
              | OutOfFuel \<Rightarrow> OutOfFuel))"

section \<open>Notions used to state the properties\<close>

text \<open>
  A tree of cancellation nodes laid out in the heap, as \<open>reset\<close> and \<open>replicate\<close> build
  it: \<open>live h t\<close> says that every node of \<open>t\<close> is allocated, unlocked and not cancelled
  (channel open, error nil) and that its registered children are exactly the roots of
  its subtrees.
\<close>

datatype tree = Node addr "tree list"

fun root :: "tree \<Rightarrow> addr" where
  "root (Node a ts) = a"

fun addrs :: "tree \<Rightarrow> addr list" where
  "addrs (Node a ts) = a # concat (map addrs ts)"

fun live :: "heap \<Rightarrow> tree \<Rightarrow> bool" where
  "live h (Node a ts) =
     (a < length h \<and> \<not> mu (h ! a) \<and> donec (h ! a) = Some Open \<and> err (h ! a) = None \<and>
      keys (children (h ! a)) = map root ts \<and> (\<forall>t \<in> set ts. live h t))"

text \<open>The heap after the nodes \<open>as\<close> have been cancelled with the error \<open>e\<close>.\<close>

fun mark :: "error \<Rightarrow> addr list \<Rightarrow> heap \<Rightarrow> heap" where
  "mark e [] h = h"
| "mark e (a # as) h =
     mark e as (upd a (\<lambda>x. x\<lparr>children := None, donec := Some Closed, err := Some e\<rparr>) h)"

text \<open>
  What the body of a \<open>Manage\<close> does, read off its calls: how often it calls \<open>Next\<close>, which
  finalizers it pushes, and whether it stays away from \<open>rerun\<close>.
\<close>

fun count_next :: "call list \<Rightarrow> nat" where
  "count_next [] = 0"
| "count_next (CallNext # cs) = Suc (count_next cs)"
| "count_next (CallPush fn # cs) = count_next cs"
| "count_next (CallRerun ms # cs) = count_next cs"

fun pushed :: "call list \<Rightarrow> manage list" where
  "pushed [] = []"
| "pushed (CallNext # cs) = pushed cs"
| "pushed (CallPush fn # cs) = fn # pushed cs"
| "pushed (CallRerun ms # cs) = pushed cs"

fun no_rerun :: "call list \<Rightarrow> bool" where
  "no_rerun [] = True"
| "no_rerun (CallNext # cs) = no_rerun cs"
| "no_rerun (CallPush fn # cs) = no_rerun cs"
| "no_rerun (CallRerun ms # cs) = False"

definition nexts :: "manage list \<Rightarrow> nat" where
  "nexts ms = sum_list (map (\<lambda>m. count_next (body m)) ms)"

text \<open>
  The finalizers a chain pushes, in the order of the pushes: a handler's pushes before
  its first call of \<open>Next\<close>, then those of the handlers after it, then its later ones.
\<close>

fun chain_pushes :: "manage list \<Rightarrow> manage list" where
  "chain_pushes [] = []"
| "chain_pushes (m # ms) =
     pushed (takeWhile (\<lambda>x. x \<noteq> CallNext) (body m)) @ chain_pushes ms @
     pushed (dropWhile (\<lambda>x. x \<noteq> CallNext) (body m))"

text \<open>
  The world after the cursor of \<open>c\<close> has moved to index \<open>i\<close>, the events \<open>evs\<close> have
  happened and the finalizers \<open>ps\<close> have been pushed.
\<close>

definition after :: "ctx \<Rightarrow> int \<Rightarrow> event list \<Rightarrow> manage list \<Rightarrow> world \<Rightarrow> world" where
  "after c i evs ps w =
     set_cur c ((cur c w)\<lparr>index := i, deferred := deferred (cur c w) @ ps\<rparr>)
       (w\<lparr>trace := trace w @ evs\<rparr>)"

text \<open>Concrete values: a context and a world as \<open>reset\<close> leaves them.\<close>

definition ctx0 :: ctx where
  "ctx0 = \<lparr>ctx_context = Some 0, ctx_handlers = 0, ctx_rw = Some 2, ctx_RW = Some 3,
            ctx_Request = Some 1, ctx_Session = None, ctx_Data = Some 4\<rparr>"

definition node0 :: context_t where
  "node0 = \<lparr>parent = None, mu = False, children = None, donec = Some Open, err = None\<rparr>"

definition world0 :: "manage list \<Rightarrow> world" where
  "world0 ms = \<lparr>contexts = [node0], cursors = [\<lparr>index = - 1, managers = ms, deferred = []\<rparr>],
               trace = []\<rparr>"

section \<open>Cancellation: framing and double cancellation\<close>

lemma length_upd [simp]: "length (upd c f h) = length h"
  by (simp add: upd_def)

lemma nth_upd_same [simp]: "c < length h \<Longrightarrow> upd c f h ! c = f (h ! c)"
  by (simp add: upd_def)

lemma nth_upd_other [simp]: "a \<noteq> c \<Longrightarrow> upd c f h ! a = h ! a"
  by (simp add: upd_def)

lemma for_children_frame:
  assumes f: "\<And>child h h'. f child h = Returns h' \<Longrightarrow> c < length h \<Longrightarrow> mu (h ! c)
                \<Longrightarrow> length h' = length h \<and> h' ! c = h ! c"
  shows "for_children f ks h = Returns h' \<Longrightarrow> c < length h \<Longrightarrow> mu (h ! c)
           \<Longrightarrow> length h' = length h \<and> h' ! c = h ! c"
proof (induction ks arbitrary: h)
  case Nil
  then show ?case by simp
next
  case (Cons k ks)
  from Cons.prems(1) obtain h1 where k: "f k h = Returns h1" and rest: "for_children f ks h1 = Returns h'"
    by (auto split: outcome.splits)
  from f [OF k Cons.prems(2,3)] have h1: "length h1 = length h" "h1 ! c = h ! c" by auto
  with Cons.IH [OF rest] Cons.prems show ?case by simp
qed

lemma cancel_frame_locked:
  "cancel n a b e h = Returns h' \<Longrightarrow> c < length h \<Longrightarrow> mu (h ! c)
     \<Longrightarrow> length h' = length h \<and> h' ! c = h ! c"
proof (induction n arbitrary: a b h h')
  case 0
  then show ?case by simp
next
  case (Suc n)
  let ?h3 = "upd a (\<lambda>x. x\<lparr>donec := Some Closed\<rparr>) (upd a (\<lambda>x. x\<lparr>err := e\<rparr>) (upd a (\<lambda>x. x\<lparr>mu := True\<rparr>) h))"
  from Suc.prems(1) have a: "a < length h" "\<not> mu (h ! a)"
    by (auto split: if_splits)
  with Suc.prems have ac: "a \<noteq> c" by auto
  from Suc.prems(1) a obtain h4 where
    loop: "for_children (\<lambda>child. cancel n child False e) (keys (children (?h3 ! a))) ?h3 = Returns h4"
    and h': "h' = (let h6 = upd a (\<lambda>x. x\<lparr>mu := False\<rparr>) (upd a (\<lambda>x. x\<lparr>children := None\<rparr>) h4)
                   in if b then (case children (h6 ! a) of None \<Rightarrow> h6
                        | Some ks \<Rightarrow> upd a (\<lambda>x. x\<lparr>children := Some (removeAll a ks)\<rparr>) h6) else h6)"
    by (auto simp: Let_def split: if_splits option.splits chan.splits outcome.splits)
  have "length h4 = length ?h3 \<and> h4 ! c = ?h3 ! c"
    by (rule for_children_frame [OF _ loop]) (use Suc.IH Suc.prems ac in auto)
  with ac show ?case
    by (auto simp: h' Let_def split: option.splits)
qed

lemma for_children_length:
  assumes f: "\<And>child h h'. f child h = Returns h' \<Longrightarrow> length h' = length h"
  shows "for_children f ks h = Returns h' \<Longrightarrow> length h' = length h"
proof (induction ks arbitrary: h)
  case Nil
  then show ?case by simp
next
  case (Cons k ks)
  from Cons.prems obtain h1 where k: "f k h = Returns h1" and rest: "for_children f ks h1 = Returns h'"
    by (auto split: outcome.splits)
  from f [OF k] Cons.IH [OF rest] show ?case by simp
qed

lemma cancel_length:
  "cancel n a b e h = Returns h' \<Longrightarrow> length h' = length h"
proof (induction n arbitrary: a b e h h')
  case 0
  then show ?case by simp
next
  case (Suc n)
  have loop: "\<And>ks g g' e. for_children (\<lambda>child. cancel n child False e) ks g = Returns g'
                 \<Longrightarrow> length g' = length g"
    by (rule for_children_length) (rule Suc.IH)
  from Suc.prems show ?case
    by (auto simp: Let_def dest!: loop split: if_splits option.splits chan.splits outcome.splits)
qed

lemma for_children_cancel_length:
  "for_children (\<lambda>child. cancel n child b e) ks h = Returns h' \<Longrightarrow> length h' = length h"
  by (rule for_children_length) (rule cancel_length)

lemma cancel_removeFromParent_ignored:
  "cancel n c True e h = cancel n c False e h"
  by (cases n)
     (auto simp: Let_def dest!: for_children_cancel_length
           split: option.splits chan.splits outcome.splits)

text \<open>
  Claim C1 (double cancel must not panic; the error stays the first one). The code has no
  guard for a node that is already cancelled: whenever a first \<open>cancel\<close> on a node has
  returned, a second \<open>cancel\<close> on the same node, with any non-nil error, reaches
  \<open>close(c.done)\<close> on the closed channel and panics.
\<close>

theorem cancel_twice_panics:
  "cancel (Suc n) c b (Some e1) h = Returns h1
     \<Longrightarrow> cancel (Suc m) c b' (Some e2) h1 = Panics CloseOfClosedChannel"
proof -
  assume first: "cancel (Suc n) c b (Some e1) h = Returns h1"
  let ?h3 = "upd c (\<lambda>x. x\<lparr>donec := Some Closed\<rparr>) (upd c (\<lambda>x. x\<lparr>err := Some e1\<rparr>) (upd c (\<lambda>x. x\<lparr>mu := True\<rparr>) h))"
  from first have c: "c < length h" "\<not> mu (h ! c)"
    by (auto split: if_splits)
  from first c obtain h4 where
    loop: "for_children (\<lambda>child. cancel n child False (Some e1)) (keys (children (?h3 ! c))) ?h3 = Returns h4"
    and h1: "h1 = (let h6 = upd c (\<lambda>x. x\<lparr>mu := False\<rparr>) (upd c (\<lambda>x. x\<lparr>children := None\<rparr>) h4)
                   in if b then (case children (h6 ! c) of None \<Rightarrow> h6
                        | Some ks \<Rightarrow> upd c (\<lambda>x. x\<lparr>children := Some (removeAll c ks)\<rparr>) h6) else h6)"
    by (auto simp: Let_def split: if_splits option.splits chan.splits outcome.splits)
  have "length h4 = length ?h3 \<and> h4 ! c = ?h3 ! c"
    by (rule for_children_frame [OF _ loop]) (use cancel_frame_locked c in auto)
  with c have "c < length h1" "\<not> mu (h1 ! c)" "donec (h1 ! c) = Some Closed"
    by (auto simp: h1 Let_def)
  then show ?thesis
    by (simp add: Let_def)
qed

theorem cancel_twice_panics_witness:
  "cancel (Suc 0) 0 False (Some Canceled)
       [\<lparr>parent = None, mu = False, children = None, donec = Some Open, err = None\<rparr>] =
     Returns [\<lparr>parent = None, mu = False, children = None, donec = Some Closed, err = Some Canceled\<rparr>] \<and>
   cancel (Suc 0) 0 False (Some (Failure ''again''))
       [\<lparr>parent = None, mu = False, children = None, donec = Some Closed, err = Some Canceled\<rparr>] =
     Panics CloseOfClosedChannel"
proof -
  have first: "cancel (Suc 0) 0 False (Some Canceled)
       [\<lparr>parent = None, mu = False, children = None, donec = Some Open, err = None\<rparr>] =
     Returns [\<lparr>parent = None, mu = False, children = None, donec = Some Closed, err = Some Canceled\<rparr>]"
    by (simp add: upd_def)
  from cancel_twice_panics [OF first, of 0 False "Failure ''again''"] first show ?thesis
    by simp
qed

text \<open>
  Claim C2 (cancel with detachFromParent = true removes the node from its parent's child
  set). The code tests and edits \<open>c.children\<close>, which it has just set to nil, and never
  touches the parent: a replica (node 1) registered with its parent (node 0) and cancelled
  with \<open>removeFromParent = true\<close> is still in the parent's child set, and the later
  cancellation of the parent visits it again and panics on its closed channel.
\<close>

theorem detach_does_not_deregister:
  "cancel 1 1 True (Some Canceled)
     [\<lparr>parent = None, mu = False, children = Some [1], donec = Some Open, err = None\<rparr>,
      \<lparr>parent = Some 0, mu = False, children = None, donec = Some Open, err = None\<rparr>] =
   Returns
     [\<lparr>parent = None, mu = False, children = Some [1], donec = Some Open, err = None\<rparr>,
      \<lparr>parent = Some 0, mu = False, children = None, donec = Some Closed, err = Some Canceled\<rparr>] \<and>
   cancel 2 0 True (Some Canceled)
     [\<lparr>parent = None, mu = False, children = Some [1], donec = Some Open, err = None\<rparr>,
      \<lparr>parent = Some 0, mu = False, children = None, donec = Some Closed, err = Some Canceled\<rparr>] =
   Panics CloseOfClosedChannel"
  by (simp add: upd_def numeral_2_eq_2)

section \<open>Reset\<close>

text \<open>
  Claim C3: after \<open>reset\<close> the context's done-signal is open, its cancellation error is
  nil, its cursor index is at the sentinel -1 and its finalizer list is empty, whatever
  the context and the heaps held before. (The new node has no parent and no children, and
  the chain bound is the one given.)
\<close>

theorem reset_fresh:
  "(case reset c rq rw m w of
      (c', w') \<Rightarrow>
        (\<exists>a. ctx_context c' = Some a \<and> Done a (contexts w') = Returns (Some Open) \<and>
              Err a (contexts w') = Returns None \<and>
              parent (contexts w' ! a) = None \<and> children (contexts w' ! a) = None) \<and>
        valid c' w' \<and> index (cur c' w') = - 1 \<and> deferred (cur c' w') = [] \<and>
        managers (cur c' w') = m)"
  by (simp add: reset_def Let_def valid_def cur_def set_cur_def defaulthandlers_def Done_def
        Err_def nth_append)

section \<open>Cancelling a live tree\<close>

lemma returnsI: "(\<And>k. n \<le> k \<Longrightarrow> f k = Returns r) \<Longrightarrow> returns f r"
  by (auto simp: returns_def)

lemma returns_const: "returns (\<lambda>k. Returns r) r"
  by (simp add: returns_def)

lemma returns_unique: "returns f r \<Longrightarrow> returns f r' \<Longrightarrow> r = r'"
proof -
  assume "returns f r" "returns f r'"
  then obtain n m where n: "\<And>k. n \<le> k \<Longrightarrow> f k = Returns r" and m: "\<And>k. m \<le> k \<Longrightarrow> f k = Returns r'"
    by (auto simp: returns_def)
  from n [of "max n m"] m [of "max n m"] show ?thesis by simp
qed

lemma upd_upd_same: "upd a f (upd a g h) = upd a (\<lambda>x. f (g x)) h"
  by (cases "a < length h") (simp_all add: upd_def list_update_beyond)

lemma upd_swap: "a \<noteq> b \<Longrightarrow> upd a f (upd b g h) = upd b g (upd a f h)"
  by (simp add: upd_def list_update_swap)

lemma mark_length [simp]: "length (mark e as h) = length h"
  by (induction as arbitrary: h) simp_all

lemma mark_nth_other: "a \<notin> set as \<Longrightarrow> mark e as h ! a = h ! a"
  by (induction as arbitrary: h) auto

lemma upd_mark_commute: "a \<notin> set as \<Longrightarrow> upd a f (mark e as h) = mark e as (upd a f h)"
  by (induction as arbitrary: h) (auto simp: upd_swap)

lemma mark_append: "mark e (as @ bs) h = mark e bs (mark e as h)"
  by (induction as arbitrary: h) simp_all

lemma mark_nth_in:
  "a \<in> set as \<Longrightarrow> a < length h \<Longrightarrow>
     mark e as h ! a = (h ! a)\<lparr>children := None, donec := Some Closed, err := Some e\<rparr>"
proof (induction as arbitrary: h)
  case Nil
  then show ?case by simp
next
  case (Cons b as)
  show ?case
  proof (cases "a \<in> set as")
    case True
    with Cons.IH [of "upd b (\<lambda>x. x\<lparr>children := None, donec := Some Closed, err := Some e\<rparr>) h"] Cons.prems
    show ?thesis by (cases "a = b") simp_all
  next
    case False
    with Cons.prems have "a = b" by simp
    with False Cons.prems show ?thesis by (simp add: mark_nth_other)
  qed
qed

lemma live_cong:
  "length h' = length h \<Longrightarrow> (\<And>x. x \<in> set (addrs t) \<Longrightarrow> h' ! x = h ! x) \<Longrightarrow> live h' t = live h t"
proof (induction t)
  case (Node a ts)
  have "live h' t = live h t" if "t \<in> set ts" for t
    using that Node.IH [OF that Node.prems(1)] Node.prems(2) by auto
  with Node.prems show ?case by simp
qed

lemma returns_for_children_Nil: "returns (\<lambda>k. for_children (f k) [] h) h"
  by (simp add: returns_def)

lemma returns_for_children_Cons:
  assumes "returns (\<lambda>k. f k child h) h1" and "returns (\<lambda>k. for_children (f k) ks h1) h2"
  shows "returns (\<lambda>k. for_children (f k) (child # ks) h) h2"
proof -
  from assms obtain n m where n: "\<And>k. n \<le> k \<Longrightarrow> f k child h = Returns h1"
    and m: "\<And>k. m \<le> k \<Longrightarrow> for_children (f k) ks h1 = Returns h2"
    by (auto simp: returns_def)
  show ?thesis
    by (rule returnsI [of "max n m"]) (simp add: n m)
qed

lemma unlocked_id: "\<not> mu x \<Longrightarrow> x\<lparr>mu := False\<rparr> = x"
  by (cases x) simp

lemma returns_cancel:
  assumes c: "c < length h" "\<not> mu (h ! c)" "donec (h ! c) = Some Open"
    and loop: "returns (\<lambda>k. for_children (\<lambda>child. cancel k child False (Some e))
                 (keys (children (h ! c)))
                 (upd c (\<lambda>x. x\<lparr>mu := True, err := Some e, donec := Some Closed\<rparr>) h)) h4"
    and len: "length h4 = length h"
  shows "returns (\<lambda>k. cancel k c b (Some e) h)
           (upd c (\<lambda>x. x\<lparr>children := None, mu := False\<rparr>) h4)"
proof -
  from loop obtain n where n: "\<And>k. n \<le> k \<Longrightarrow>
      for_children (\<lambda>child. cancel k child False (Some e)) (keys (children (h ! c)))
        (upd c (\<lambda>x. x\<lparr>mu := True, err := Some e, donec := Some Closed\<rparr>) h) = Returns h4"
    by (auto simp: returns_def)
  show ?thesis
  proof (rule returnsI [of "Suc n"])
    fix k assume "Suc n \<le> k"
    then obtain k' where k: "k = Suc k'" "n \<le> k'" by (cases k) auto
    from c len n [OF k(2)] show "cancel k c b (Some e) h = Returns (upd c (\<lambda>x. x\<lparr>children := None, mu := False\<rparr>) h4)"
      by (simp add: k(1) Let_def upd_upd_same)
  qed
qed

lemma cancel_tree:
  "live h t \<Longrightarrow> distinct (addrs t) \<Longrightarrow>
     returns (\<lambda>k. cancel k (root t) b (Some e) h) (mark e (addrs t) h)"
proof (induction t arbitrary: h b)
  case (Node a ts)
  let ?h3 = "upd a (\<lambda>x. x\<lparr>mu := True, err := Some e, donec := Some Closed\<rparr>) h"
  from Node.prems have a: "a < length h" "\<not> mu (h ! a)" "donec (h ! a) = Some Open"
    and kids: "keys (children (h ! a)) = map root ts"
    and lv: "\<And>t. t \<in> set ts \<Longrightarrow> live h t"
    and fresh: "a \<notin> set (concat (map addrs ts))" and dist: "distinct (concat (map addrs ts))"
    by auto
  have forest: "set ts' \<subseteq> set ts \<Longrightarrow> distinct (concat (map addrs ts')) \<Longrightarrow>
      (\<And>t. t \<in> set ts' \<Longrightarrow> live g t) \<Longrightarrow>
      returns (\<lambda>k. for_children (\<lambda>child. cancel k child False (Some e)) (map root ts') g)
        (mark e (concat (map addrs ts')) g)" for ts' g
  proof (induction ts' arbitrary: g)
    case Nil
    show ?case by (simp add: returns_def)
  next
    case (Cons t ts')
    from Cons.prems have t: "t \<in> set ts" "live g t" "distinct (addrs t)" by auto
    have hd: "returns (\<lambda>k. cancel k (root t) False (Some e) g) (mark e (addrs t) g)"
      by (rule Node.IH [OF t])
    have "live (mark e (addrs t) g) t'" if "t' \<in> set ts'" for t'
    proof -
      from that Cons.prems(2) have "x \<notin> set (addrs t)" if "x \<in> set (addrs t')" for x
        using that by auto
      then have "live (mark e (addrs t) g) t' = live g t'"
        by (intro live_cong) (simp_all add: mark_nth_other)
      with that Cons.prems(3) show ?thesis by simp
    qed
    moreover from Cons.prems have "set ts' \<subseteq> set ts" "distinct (concat (map addrs ts'))" by auto
    ultimately have tl: "returns (\<lambda>k. for_children (\<lambda>child. cancel k child False (Some e)) (map root ts')
        (mark e (addrs t) g)) (mark e (concat (map addrs ts')) (mark e (addrs t) g))"
      by (intro Cons.IH) auto
    from returns_for_children_Cons [of "\<lambda>k child. cancel k child False (Some e)", OF hd tl]
    show ?case by (simp add: mark_append)
  qed
  have "live ?h3 t" if "t \<in> set ts" for t
  proof -
    from that fresh have "x \<noteq> a" if "x \<in> set (addrs t)" for x
      using that by auto
    then have "live ?h3 t = live h t" by (intro live_cong) simp_all
    with lv [OF that] show ?thesis by simp
  qed
  with dist have loop: "returns (\<lambda>k. for_children (\<lambda>child. cancel k child False (Some e)) (map root ts) ?h3)
        (mark e (concat (map addrs ts)) ?h3)"
    by (intro forest) auto
  have fin: "upd a (\<lambda>x. x\<lparr>children := None, mu := False\<rparr>) (mark e (concat (map addrs ts)) ?h3)
      = mark e (addrs (Node a ts)) h"
  proof -
    have "(h ! a)\<lparr>mu := True, err := Some e, donec := Some Closed, children := None, mu := False\<rparr>
        = (h ! a)\<lparr>children := None, donec := Some Closed, err := Some e\<rparr>"
      using a(2) by (cases "h ! a") simp
    then show ?thesis
      by (simp add: upd_mark_commute [OF fresh] upd_upd_same) (simp add: upd_def)
  qed
  from returns_cancel [OF a, of e "mark e (concat (map addrs ts)) ?h3" b] loop
  show ?case by (simp add: kids fin)
qed

lemma live_transfer:
  "live h t \<Longrightarrow> (\<And>x. x \<in> set (addrs t) \<Longrightarrow> x < length h \<Longrightarrow> x < length h' \<and> h' ! x = h ! x)
     \<Longrightarrow> live h' t"
proof (induction t)
  case (Node a ts)
  have "live h' t" if "t \<in> set ts" for t
    using that Node.IH [OF that] Node.prems by auto
  with Node.prems show ?case by auto
qed

lemma live_addrs:
  "live h t \<Longrightarrow> x \<in> set (addrs t) \<Longrightarrow> x < length h \<and> \<not> mu (h ! x)"
  by (induction t) auto

lemma root_in_addrs: "root t \<in> set (addrs t)"
  by (cases t) simp

lemma mark_mu: "mu (mark e as h ! x) = mu (h ! x)"
proof (induction as arbitrary: h)
  case Nil
  show ?case by simp
next
  case (Cons a as)
  have "mu (upd a (\<lambda>x. x\<lparr>children := None, donec := Some Closed, err := Some e\<rparr>) h ! x) = mu (h ! x)"
    by (cases "x = a"; cases "a < length h") (simp_all add: upd_def list_update_beyond)
  with Cons.IH [of "upd a (\<lambda>x. x\<lparr>children := None, donec := Some Closed, err := Some e\<rparr>) h"]
  show ?case by simp
qed

lemma upd_id: "upd p (\<lambda>x. x) h = h"
  by (simp add: upd_def)


lemma propagateCancel_fired:
  assumes p: "p < length h" "\<not> mu (h ! p)"
   and fired: "donec (h ! p) = Some Closed" "err (h ! p) = Some e" "live h t" "root t = child"
          "distinct (addrs t)" "p \<notin> set (addrs t)"
  shows "returns (\<lambda>k. propagateCancel k p child h) (mark e (addrs t) h)"
proof -
  let ?h1 = "upd p (\<lambda>x. x\<lparr>mu := True\<rparr>) h"
  from fired have ne: "x \<noteq> p" if "x \<in> set (addrs t)" for x using that by auto
  from fired(3) have "live ?h1 t" by (rule live_transfer) (simp add: ne)
  with fired have "returns (\<lambda>k. cancel k child False (Some e) ?h1) (mark e (addrs t) ?h1)"
    using cancel_tree [of ?h1 t False e] by simp
  then obtain n where n: "\<And>k. n \<le> k \<Longrightarrow> cancel k child False (Some e) ?h1 = Returns (mark e (addrs t) ?h1)"
    by (auto simp: returns_def)
  have "upd p (\<lambda>x. x\<lparr>mu := False\<rparr>) (mark e (addrs t) ?h1) = mark e (addrs t) (upd p (\<lambda>x. x\<lparr>mu := True\<rparr>\<lparr>mu := False\<rparr>) h)"
    by (simp only: upd_mark_commute [OF fired(6)] upd_upd_same)
  also have "upd p (\<lambda>x. x\<lparr>mu := True\<rparr>\<lparr>mu := False\<rparr>) h = h"
    using p by (simp add: upd_def unlocked_id)
  finally have unlock: "upd p (\<lambda>x. x\<lparr>mu := False\<rparr>) (mark e (addrs t) ?h1) = mark e (addrs t) h" .
  show ?thesis
  proof (rule returnsI [of n])
    fix k assume "n \<le> k"
    from n [OF this] p fired(1,2) unlock
    show "propagateCancel k p child h = Returns (mark e (addrs t) h)"
      by (simp add: propagateCancel_def Let_def)
  qed
qed

lemma unlocked_children: "\<not> mu x \<Longrightarrow> x\<lparr>children := k, mu := False\<rparr> = x\<lparr>children := k\<rparr>"
  by (cases x) simp

lemma live_fresh_leaf:
  "live (h @ [\<lparr>parent = q, mu = False, children = None, donec = Some Open, err = None\<rparr>])
     (Node (length h) [])"
  by simp


section \<open>Registering a child\<close>

text \<open>
  Claim C7: registering a child on a node whose done-signal has fired (channel closed,
  error \<open>e\<close>) leaves the node's child set as it is and cancels the child (here any live
  tree \<open>t\<close> rooted at the child, disjoint from the node) with that error \<open>e\<close>; on a node
  not yet cancelled (channel open, error nil) the child is added to the child set and the
  node stays uncancelled.
\<close>

theorem propagateCancel_registers_or_cancels:
  assumes p: "p < length h" "\<not> mu (h ! p)"
  shows "(donec (h ! p) = Some Closed \<and> err (h ! p) = Some e \<and> live h t \<and> root t = child \<and>
          distinct (addrs t) \<and> p \<notin> set (addrs t) \<longrightarrow>
            returns (\<lambda>k. propagateCancel k p child h) (mark e (addrs t) h) \<and>
            children (mark e (addrs t) h ! p) = children (h ! p) \<and>
            Done child (mark e (addrs t) h) = Returns (Some Closed) \<and>
            Err child (mark e (addrs t) h) = Returns (Some e)) \<and>
         (donec (h ! p) = Some Open \<and> err (h ! p) = None \<longrightarrow>
            (\<exists>h'. propagateCancel n p child h = Returns h' \<and>
                  set (keys (children (h' ! p))) = insert child (set (keys (children (h ! p)))) \<and>
                  Done p h' = Returns (Some Open) \<and> Err p h' = Returns None))"
proof (intro conjI impI)
  assume fired: "donec (h ! p) = Some Closed \<and> err (h ! p) = Some e \<and> live h t \<and> root t = child \<and>
          distinct (addrs t) \<and> p \<notin> set (addrs t)"
  with p show "returns (\<lambda>k. propagateCancel k p child h) (mark e (addrs t) h)"
    by (intro propagateCancel_fired) simp_all
  from fired show "children (mark e (addrs t) h ! p) = children (h ! p)"
    by (simp add: mark_nth_other)
  from fired have c: "child \<in> set (addrs t)" using root_in_addrs [of t] by simp
  with fired live_addrs [of h t child] have c': "child < length h" "\<not> mu (h ! child)" by auto
  from c c' show "Done child (mark e (addrs t) h) = Returns (Some Closed)"
    by (simp add: Done_def mark_nth_in)
  from c c' show "Err child (mark e (addrs t) h) = Returns (Some e)"
    by (simp add: Err_def mark_mu) (simp add: mark_nth_in)
next
  assume "donec (h ! p) = Some Open \<and> err (h ! p) = None"
  with p show "\<exists>h'. propagateCancel n p child h = Returns h' \<and>
                  set (keys (children (h' ! p))) = insert child (set (keys (children (h ! p)))) \<and>
                  Done p h' = Returns (Some Open) \<and> Err p h' = Returns None"
    by (simp add: propagateCancel_def Let_def Done_def Err_def upd_upd_same)
qed



theorem propagateCancel_registers_or_cancels_witness:
  "(0 < length [\<lparr>parent = None, mu = False, children = None, donec = Some Closed, err = Some Canceled\<rparr>,
               \<lparr>parent = Some 0, mu = False, children = None, donec = Some Open, err = None\<rparr>] \<and>
    live [\<lparr>parent = None, mu = False, children = None, donec = Some Closed, err = Some Canceled\<rparr>,
          \<lparr>parent = Some 0, mu = False, children = None, donec = Some Open, err = None\<rparr>] (Node 1 []) \<and>
    returns (\<lambda>k. propagateCancel k 0 1
        [\<lparr>parent = None, mu = False, children = None, donec = Some Closed, err = Some Canceled\<rparr>,
         \<lparr>parent = Some 0, mu = False, children = None, donec = Some Open, err = None\<rparr>])
      [\<lparr>parent = None, mu = False, children = None, donec = Some Closed, err = Some Canceled\<rparr>,
       \<lparr>parent = Some 0, mu = False, children = None, donec = Some Closed, err = Some Canceled\<rparr>]) \<and>
   propagateCancel 0 0 1
        [\<lparr>parent = None, mu = False, children = None, donec = Some Open, err = None\<rparr>,
         \<lparr>parent = Some 0, mu = False, children = None, donec = Some Open, err = None\<rparr>] =
     Returns
        [\<lparr>parent = None, mu = False, children = Some [1], donec = Some Open, err = None\<rparr>,
         \<lparr>parent = Some 0, mu = False, children = None, donec = Some Open, err = None\<rparr>]"
proof -
  let ?fired = "[\<lparr>parent = None, mu = False, children = None, donec = Some Closed, err = Some Canceled\<rparr>,
               \<lparr>parent = Some 0, mu = False, children = None, donec = Some Open, err = None\<rparr>]"
  let ?open = "[\<lparr>parent = None, mu = False, children = None, donec = Some Open, err = None\<rparr>,
               \<lparr>parent = Some 0, mu = False, children = None, donec = Some Open, err = None\<rparr>]"
  have a: "0 < length ?fired" "\<not> mu (?fired ! 0)" and b: "0 < length ?open" "\<not> mu (?open ! 0)"
    by simp_all
  from propagateCancel_registers_or_cancels [OF a, of Canceled "Node 1 []" 1 0]
  have "returns (\<lambda>k. propagateCancel k 0 1 ?fired) (mark Canceled (addrs (Node 1 [])) ?fired)"
    by simp
  moreover have "propagateCancel 0 0 1 ?open =
     Returns
        [\<lparr>parent = None, mu = False, children = Some [1], donec = Some Open, err = None\<rparr>,
         \<lparr>parent = Some 0, mu = False, children = None, donec = Some Open, err = None\<rparr>]"
    by (simp add: propagateCancel_def Let_def upd_def)
  ultimately show ?thesis
    by (simp add: upd_def)
qed


section \<open>Cancellation flows downward only\<close>

text \<open>
  While nothing in the tree below a context's node \<open>p\<close> has been cancelled (a live tree),
  cancellation does flow downward only: \<open>replicate\<close> registers a new node among the
  children of \<open>p\<close>; cancelling the replica leaves the done-signal and the error of \<open>p\<close>
  unchanged; cancelling \<open>p\<close> with an error \<open>e'\<close> marks \<open>p\<close> and every registered child as
  done with \<open>e'\<close>.
\<close>

lemma live_tree_cancellation_flows_down:
  assumes c: "ctx_context c = Some p"
    and t: "live (contexts w) (Node p ts)" "distinct (addrs (Node p ts))"
  shows "\<exists>r w1.
           replicate_ctx n c w = Returns (r, w1) \<and>
           ctx_context r = Some (length (contexts w)) \<and>
           set (keys (children (contexts w1 ! p))) = insert (length (contexts w)) (set (map root ts)) \<and>
           (\<exists>hA. returns (\<lambda>k. cancel k (length (contexts w)) b (Some e) (contexts w1)) hA \<and>
                 Done (length (contexts w)) hA = Returns (Some Closed) \<and>
                 Done p hA = Done p (contexts w1) \<and> Err p hA = Err p (contexts w1) \<and>
                 Done p hA = Returns (Some Open) \<and> Err p hA = Returns None) \<and>
           (\<exists>hB. returns (\<lambda>k. cancel k p b' (Some e') (contexts w1)) hB \<and>
                 Done p hB = Returns (Some Closed) \<and> Err p hB = Returns (Some e') \<and>
                 (\<forall>x \<in> set (keys (children (contexts w1 ! p))).
                     Done x hB = Returns (Some Closed) \<and> Err x hB = Returns (Some e')))"
proof -
  let ?child = "length (contexts w)"
  let ?h = "contexts w @ [\<lparr>parent = ctx_context c, mu = False, children = None, donec = Some Open, err = None\<rparr>]"
  let ?h1 = "upd p (\<lambda>x. x\<lparr>children := Some (?child # map root ts)\<rparr>) ?h"
  let ?t1 = "Node p (Node ?child [] # ts)"
  from t have p: "p < length (contexts w)" "\<not> mu (contexts w ! p)" "donec (contexts w ! p) = Some Open"
      "err (contexts w ! p) = None" "keys (children (contexts w ! p)) = map root ts"
    by auto
  have old: "x < ?child" if "x \<in> set (addrs (Node p ts))" for x
    using live_addrs [OF t(1) that] by simp
  then have fresh: "?child \<notin> set (addrs (Node p ts))" by blast
  then have notroot: "?child \<notin> set (map root ts)"
    using root_in_addrs by fastforce
  have rep: "replicate_ctx n c w = Returns (c\<lparr>ctx_context := Some ?child\<rparr>, w\<lparr>contexts := ?h1\<rparr>)"
    using p c notroot
    by (cases "children (contexts w ! p)")
       (simp_all add: replicate_ctx_def propagateCancel_def Let_def nth_append upd_upd_same,
        simp_all add: upd_def nth_append unlocked_children)
  have sub: "live ?h1 t'" if "t' \<in> set ts" for t'
  proof -
    from that t have lt: "live (contexts w) t'" and np: "p \<notin> set (addrs t')" by auto
    from np have ne: "x \<noteq> p" if "x \<in> set (addrs t')" for x using that by auto
    from lt show ?thesis
      by (rule live_transfer) (simp add: ne nth_append)
  qed
  have leaf: "live ?h1 (Node ?child [])"
    using p by (simp add: nth_append)
  have live1: "live ?h1 ?t1"
    using p sub leaf by (simp add: nth_append)
  have dist1: "distinct (addrs ?t1)"
    using t(2) fresh by auto
  let ?hA = "mark e (addrs (Node ?child [])) ?h1"
  let ?hB = "mark e' (addrs ?t1) ?h1"
  have A: "returns (\<lambda>k. cancel k ?child b (Some e) ?h1) ?hA"
    using cancel_tree [OF leaf, of b e] by simp
  have B: "returns (\<lambda>k. cancel k p b' (Some e') ?h1) ?hB"
    using cancel_tree [OF live1 dist1, of b' e'] by simp
  have kids1: "keys (children (?h1 ! p)) = ?child # map root ts"
    using p by simp
  have marked: "Done x ?hB = Returns (Some Closed) \<and> Err x ?hB = Returns (Some e')"
    if "x \<in> set (addrs ?t1)" for x
  proof -
    from live_addrs [OF live1 that] have "x < length ?h1" "\<not> mu (?h1 ! x)" by auto
    with that show ?thesis
      by (simp add: Done_def Err_def mark_mu mark_nth_in del: addrs.simps)
  qed
  have kids_in: "x \<in> set (addrs ?t1)" if "x \<in> set (?child # map root ts)" for x
    using that root_in_addrs by fastforce
  have pA: "?hA ! p = ?h1 ! p"
    using p by (simp add: upd_def)
  show ?thesis
  proof (intro exI conjI)
    show "replicate_ctx n c w = Returns (c\<lparr>ctx_context := Some ?child\<rparr>, w\<lparr>contexts := ?h1\<rparr>)"
      by (rule rep)
    show "ctx_context (c\<lparr>ctx_context := Some ?child\<rparr>) = Some ?child" by simp
    show "set (keys (children (contexts (w\<lparr>contexts := ?h1\<rparr>) ! p))) = insert ?child (set (map root ts))"
      using kids1 by simp
    show "returns (\<lambda>k. cancel k ?child b (Some e) (contexts (w\<lparr>contexts := ?h1\<rparr>))) ?hA"
      using A by simp
    show "Done ?child ?hA = Returns (Some Closed)"
      using p by (simp add: Done_def upd_def)
    show "Done p ?hA = Done p (contexts (w\<lparr>contexts := ?h1\<rparr>))"
      using pA by (simp add: Done_def)
    show "Err p ?hA = Err p (contexts (w\<lparr>contexts := ?h1\<rparr>))"
      using pA by (simp add: Err_def)
    show "Done p ?hA = Returns (Some Open)"
      using pA p by (simp add: Done_def nth_append)
    show "Err p ?hA = Returns None"
      using pA p by (simp add: Err_def nth_append)
    show "returns (\<lambda>k. cancel k p b' (Some e') (contexts (w\<lparr>contexts := ?h1\<rparr>))) ?hB"
      using B by simp
    show "Done p ?hB = Returns (Some Closed)"
      using marked [of p] by simp
    show "Err p ?hB = Returns (Some e')"
      using marked [of p] by simp
    show "\<forall>x \<in> set (keys (children (contexts (w\<lparr>contexts := ?h1\<rparr>) ! p))).
            Done x ?hB = Returns (Some Closed) \<and> Err x ?hB = Returns (Some e')"
      using kids1 marked kids_in by simp
  qed
qed

lemma live_tree_cancellation_flows_down_example:
  "ctx_context ctx0 = Some 0 \<and> live (contexts (world0 [])) (Node 0 []) \<and>
   distinct (addrs (Node 0 [])) \<and>
   (\<exists>r w1.
      replicate_ctx 0 ctx0 (world0 []) = Returns (r, w1) \<and>
      ctx_context r = Some (length (contexts (world0 []))) \<and>
      set (keys (children (contexts w1 ! 0))) =
        insert (length (contexts (world0 []))) (set (map root [])) \<and>
      (\<exists>hA. returns (\<lambda>k. cancel k (length (contexts (world0 []))) True (Some Canceled) (contexts w1)) hA \<and>
            Done (length (contexts (world0 []))) hA = Returns (Some Closed) \<and>
            Done 0 hA = Done 0 (contexts w1) \<and> Err 0 hA = Err 0 (contexts w1) \<and>
            Done 0 hA = Returns (Some Open) \<and> Err 0 hA = Returns None) \<and>
      (\<exists>hB. returns (\<lambda>k. cancel k 0 True (Some Canceled) (contexts w1)) hB \<and>
            Done 0 hB = Returns (Some Closed) \<and> Err 0 hB = Returns (Some Canceled) \<and>
            (\<forall>x \<in> set (keys (children (contexts w1 ! 0))).
                Done x hB = Returns (Some Closed) \<and> Err x hB = Returns (Some Canceled))))"
proof -
  have h: "ctx_context ctx0 = Some 0" "live (contexts (world0 [])) (Node 0 [])"
      "distinct (addrs (Node 0 []))"
    by (simp_all add: ctx0_def world0_def node0_def)
  from live_tree_cancellation_flows_down [OF h, of 0 True Canceled True Canceled] h
  show ?thesis by blast
qed

text \<open>
  Claim C6 (cancelling the parent marks every still-registered replica done with the
  parent's error). Outside live trees the code does not do this. A replica that has
  cancelled itself is still registered with its parent, since the detachment of claim C2
  never happens, and \<open>cancel\<close> has no guard for a node that is already cancelled (claim
  C1): after \<open>replicate\<close> and \<open>Cancel\<close> on the replica the parent is still open and
  still holds the replica (node 1) in its child set, and \<open>Cancel\<close> on the parent then
  panics on the replica's closed channel instead of returning.
\<close>

theorem parent_cancel_panics_on_cancelled_replica:
  "(case replicate_ctx 0 ctx0 (world0 []) of
      Returns (r, w1) \<Rightarrow>
        1 \<in> set (keys (children (contexts w1 ! 0))) \<and>
        (case Cancel 1 r w1 of
           Returns w2 \<Rightarrow>
             Done 0 (contexts w2) = Returns (Some Open) \<and>
             1 \<in> set (keys (children (contexts w2 ! 0))) \<and>
             Cancel 2 ctx0 w2 = Panics CloseOfClosedChannel
         | Panics p \<Rightarrow> False | Blocks \<Rightarrow> False | OutOfFuel \<Rightarrow> False)
    | Panics p \<Rightarrow> False | Blocks \<Rightarrow> False | OutOfFuel \<Rightarrow> False)"
  by code_simp

section \<open>The cursor: elementary facts\<close>

lemma int8_id: "- 128 \<le> x \<Longrightarrow> x \<le> 127 \<Longrightarrow> int8 x = x"
  by (simp add: int8_def)

lemma int8_range: "- 128 \<le> int8 x \<and> int8 x \<le> 127"
  by (simp add: int8_def)

lemma int8_length_le: "nat (int8 (int n)) \<le> n"
proof -
  have "(int n + 128) mod 256 \<le> int n + 128"
    by (rule zmod_le_nonneg_dividend) simp
  then have "int8 (int n) \<le> int n"
    by (simp add: int8_def)
  then show ?thesis by simp
qed

lemma valid_set_cur [simp]: "valid c (set_cur c x w) = valid c w"
  by (simp add: valid_def set_cur_def)

lemma cur_set_cur [simp]: "valid c w \<Longrightarrow> cur c (set_cur c x w) = x"
  by (simp add: valid_def set_cur_def cur_def)

lemma set_cur_set_cur [simp]: "set_cur c x (set_cur c y w) = set_cur c x w"
  by (simp add: set_cur_def)

lemma trace_set_cur [simp]: "trace (set_cur c x w) = trace w"
  by (simp add: set_cur_def)

lemma valid_emit [simp]: "valid c (emit ev w) = valid c w"
  by (simp add: valid_def emit_def)

lemma cur_emit [simp]: "cur c (emit ev w) = cur c w"
  by (simp add: cur_def emit_def)

lemma valid_after [simp]: "valid c (after c i evs ps w) = valid c w"
  by (simp add: after_def valid_def set_cur_def)

lemma cur_after:
  "valid c w \<Longrightarrow> cur c (after c i evs ps w) = (cur c w)\<lparr>index := i, deferred := deferred (cur c w) @ ps\<rparr>"
  by (simp add: after_def valid_def set_cur_def cur_def)

lemma index_after [simp]: "valid c w \<Longrightarrow> index (cur c (after c i evs ps w)) = i"
  by (simp add: cur_after)

lemma managers_after [simp]: "valid c w \<Longrightarrow> managers (cur c (after c i evs ps w)) = managers (cur c w)"
  by (simp add: cur_after)

lemma deferred_after [simp]:
  "valid c w \<Longrightarrow> deferred (cur c (after c i evs ps w)) = deferred (cur c w) @ ps"
  by (simp add: cur_after)

lemma trace_after [simp]: "trace (after c i evs ps w) = trace w @ evs"
  by (simp add: after_def set_cur_def)

lemma after_after:
  "valid c w \<Longrightarrow> after c j evs2 ps2 (after c i evs1 ps1 w) = after c j (evs1 @ evs2) (ps1 @ ps2) w"
  by (simp add: after_def valid_def set_cur_def cur_def)

lemma index_update_id: "index x = i \<Longrightarrow> x\<lparr>index := i\<rparr> = x"
  by (cases x) simp

lemma after_id: "valid c w \<Longrightarrow> index (cur c w) = i \<Longrightarrow> after c i [] [] w = w"
  by (simp add: after_def valid_def set_cur_def cur_def index_update_id)

lemma emit_after: "valid c w \<Longrightarrow> emit ev w = after c (index (cur c w)) [ev] [] w"
  by (simp add: after_def valid_def set_cur_def cur_def emit_def)

lemma move_after: "valid c w \<Longrightarrow> set_cur c ((cur c w)\<lparr>index := j\<rparr>) w = after c j [] [] w"
  by (simp add: after_def valid_def set_cur_def cur_def)

lemma push_after:
  "valid c w \<Longrightarrow> push c fn w = Returns (after c (index (cur c w)) [] [fn] w)"
  by (simp add: push_def after_def valid_def set_cur_def cur_def)

lemma returns_Next:
  assumes "valid c w"
    and "returns (\<lambda>k. Next_loop k (int8 (int (length (managers (cur c w))))) c
                    (after c (int8 (index (cur c w) + 1)) [] [] w)) w'"
  shows "returns (\<lambda>k. Next k c w) w'"
proof -
  from assms(2) obtain n where n: "\<And>k. n \<le> k \<Longrightarrow>
      Next_loop k (int8 (int (length (managers (cur c w))))) c
        (after c (int8 (index (cur c w) + 1)) [] [] w) = Returns w'"
    by (auto simp: returns_def)
  show ?thesis
  proof (rule returnsI [of "Suc n"])
    fix k assume "Suc n \<le> k"
    then obtain k' where k: "k = Suc k'" "n \<le> k'" by (cases k) auto
    from assms(1) n [OF k(2)] show "Next k c w = Returns w'"
      by (simp add: k(1) Let_def move_after)
  qed
qed

lemma returns_loop_exit:
  "\<not> index (cur c w) < s \<Longrightarrow> returns (\<lambda>k. Next_loop k s c w) w"
proof (rule returnsI [of "Suc 0"])
  fix k :: nat assume "\<not> index (cur c w) < s" "Suc 0 \<le> k"
  then show "Next_loop k s c w = Returns w" by (cases k) simp_all
qed

lemma returns_loop_step:
  assumes "index (cur c w) < s" "0 \<le> index (cur c w)"
    and "index (cur c w) < int (length (managers (cur c w)))"
    and "managers (cur c w) ! nat (index (cur c w)) = fn"
    and "returns (\<lambda>k. exec k (body fn) c (emit (Handler fn) w)) w1"
    and "returns (\<lambda>k. Next_loop k s c
                    (set_cur c ((cur c w1)\<lparr>index := int8 (index (cur c w1) + 1)\<rparr>) w1)) w2"
  shows "returns (\<lambda>k. Next_loop k s c w) w2"
proof -
  from assms(5,6) obtain n m where
    n: "\<And>k. n \<le> k \<Longrightarrow> exec k (body fn) c (emit (Handler fn) w) = Returns w1" and
    m: "\<And>k. m \<le> k \<Longrightarrow> Next_loop k s c
          (set_cur c ((cur c w1)\<lparr>index := int8 (index (cur c w1) + 1)\<rparr>) w1) = Returns w2"
    by (auto simp: returns_def)
  show ?thesis
  proof (rule returnsI [of "Suc (max n m)"])
    fix k assume "Suc (max n m) \<le> k"
    then obtain k' where k: "k = Suc k'" "n \<le> k'" "m \<le> k'" by (cases k) auto
    from assms(1-4) n [OF k(2)] m [OF k(3)] show "Next_loop k s c w = Returns w2"
      by (simp add: k(1) Let_def)
  qed
qed

lemma returns_exec_Nil: "returns (\<lambda>k. exec k [] c w) w"
proof (rule returnsI [of "Suc 0"])
  fix k :: nat assume "Suc 0 \<le> k"
  then show "exec k [] c w = Returns w" by (cases k) simp_all
qed

lemma returns_exec_Next:
  assumes "returns (\<lambda>k. Next k c w) w1" and "returns (\<lambda>k. exec k cs c w1) w2"
  shows "returns (\<lambda>k. exec k (CallNext # cs) c w) w2"
proof -
  from assms obtain n m where
    n: "\<And>k. n \<le> k \<Longrightarrow> Next k c w = Returns w1" and
    m: "\<And>k. m \<le> k \<Longrightarrow> exec k cs c w1 = Returns w2"
    by (auto simp: returns_def)
  show ?thesis
  proof (rule returnsI [of "Suc (max n m)"])
    fix k assume "Suc (max n m) \<le> k"
    then obtain k' where k: "k = Suc k'" "n \<le> k'" "m \<le> k'" by (cases k) auto
    from n [OF k(2)] m [OF k(3)] show "exec k (CallNext # cs) c w = Returns w2"
      by (simp add: k(1))
  qed
qed

lemma returns_exec_Push:
  assumes "push c fn w = Returns w1" and "returns (\<lambda>k. exec k cs c w1) w2"
  shows "returns (\<lambda>k. exec k (CallPush fn # cs) c w) w2"
proof -
  from assms obtain m where
    m: "\<And>k. m \<le> k \<Longrightarrow> exec k cs c w1 = Returns w2"
    by (auto simp: returns_def)
  show ?thesis
  proof (rule returnsI [of "Suc m"])
    fix k assume "Suc m \<le> k"
    then obtain k' where k: "k = Suc k'" "m \<le> k'" by (cases k) auto
    from assms(1) m [OF k(2)] show "exec k (CallPush fn # cs) c w = Returns w2"
      by (simp add: k(1))
  qed
qed

lemma returns_rerun:
  assumes "valid c w"
    and "returns (\<lambda>k. Next k c (set_cur c ((cur c w)\<lparr>index := - 1, managers := ms\<rparr>) w)) w'"
  shows "returns (\<lambda>k. rerun k c ms w) w'"
proof -
  from assms(2) obtain n where
    n: "\<And>k. n \<le> k \<Longrightarrow> Next k c (set_cur c ((cur c w)\<lparr>index := - 1, managers := ms\<rparr>) w) = Returns w'"
    by (auto simp: returns_def)
  show ?thesis
  proof (rule returnsI [of "Suc n"])
    fix k assume "Suc n \<le> k"
    then obtain k' where k: "k = Suc k'" "n \<le> k'" by (cases k) auto
    show "rerun k c ms w = Returns w'"
    proof (cases "index (cur c w) = - 1")
      case True
      then have "(cur c w)\<lparr>managers := ms\<rparr> = (cur c w)\<lparr>index := - 1, managers := ms\<rparr>"
        by (cases "cur c w") simp
      with n [OF k(2)] have "Next k' c (set_cur c ((cur c w)\<lparr>managers := ms\<rparr>) w) = Returns w'"
        by (simp only:)
      with True assms(1) show ?thesis
        by (simp add: k(1) Let_def)
    next
      case False
      with assms(1) n [OF k(2)] show ?thesis
        by (simp add: k(1) Let_def)
    qed
  qed
qed

lemma returns_for_deferred_Nil: "returns (\<lambda>k. for_deferred k [] c w) w"
  by (simp add: returns_def)

lemma returns_for_deferred_Cons:
  assumes "returns (\<lambda>k. exec k (body fn) c (emit (Finalizer fn) w)) w1"
    and "returns (\<lambda>k. for_deferred k fns c w1) w2"
  shows "returns (\<lambda>k. for_deferred k (fn # fns) c w) w2"
proof -
  from assms obtain n m where
    n: "\<And>k. n \<le> k \<Longrightarrow> exec k (body fn) c (emit (Finalizer fn) w) = Returns w1" and
    m: "\<And>k. m \<le> k \<Longrightarrow> for_deferred k fns c w1 = Returns w2"
    by (auto simp: returns_def)
  show ?thesis
    by (rule returnsI [of "max n m"]) (simp add: n m)
qed

lemma returns_Run:
  assumes "push c release w = Returns w1" and "returns (\<lambda>k. Next k c w1) w2"
    and "returns (\<lambda>k. for_deferred k (deferred (cur c w2)) c w2) w3"
  shows "returns (\<lambda>k. Run k release c w) w3"
proof -
  from assms obtain n m where
    n: "\<And>k. n \<le> k \<Longrightarrow> Next k c w1 = Returns w2" and
    m: "\<And>k. m \<le> k \<Longrightarrow> for_deferred k (deferred (cur c w2)) c w2 = Returns w3"
    by (auto simp: returns_def)
  show ?thesis
    by (rule returnsI [of "max n m"]) (simp add: Run_def assms(1) n m)
qed

section \<open>The cursor past the end of the chain\<close>

text \<open>Once the index has reached the length read by Next, a call of Next only counts.\<close>

lemma Next_past_end:
  assumes "valid c w" "int8 (int (length (managers (cur c w)))) \<le> index (cur c w)"
    and "- 128 \<le> index (cur c w)" "index (cur c w) + 1 \<le> 127"
  shows "returns (\<lambda>k. Next k c w) (after c (index (cur c w) + 1) [] [] w)"
proof (rule returns_Next [OF assms(1)])
  from assms have "int8 (index (cur c w) + 1) = index (cur c w) + 1"
    by (simp add: int8_id)
  with assms show "returns (\<lambda>k. Next_loop k (int8 (int (length (managers (cur c w))))) c
       (after c (int8 (index (cur c w) + 1)) [] [] w)) (after c (index (cur c w) + 1) [] [] w)"
    by (simp add: returns_loop_exit)
qed

lemma exec_past_end:
  "no_rerun cs \<Longrightarrow> valid c w \<Longrightarrow> int8 (int (length (managers (cur c w)))) \<le> index (cur c w) \<Longrightarrow>
   - 128 \<le> index (cur c w) \<Longrightarrow> index (cur c w) + int (count_next cs) \<le> 127 \<Longrightarrow>
   returns (\<lambda>k. exec k cs c w) (after c (index (cur c w) + int (count_next cs)) [] (pushed cs) w)"
proof (induction cs arbitrary: w rule: no_rerun.induct)
  case 1
  then show ?case by (simp add: after_id returns_exec_Nil)
next
  case (2 cs)
  let ?w1 = "after c (index (cur c w) + 1) [] [] w"
  from 2 have nx: "returns (\<lambda>k. Next k c w) ?w1"
    by (intro Next_past_end) simp_all
  from 2 have "returns (\<lambda>k. exec k cs c ?w1)
      (after c (index (cur c ?w1) + int (count_next cs)) [] (pushed cs) ?w1)"
    by (intro "2.IH") simp_all
  with 2 have "returns (\<lambda>k. exec k cs c ?w1)
      (after c (index (cur c w) + int (count_next (CallNext # cs))) [] (pushed (CallNext # cs)) w)"
    by (simp add: after_after add.commute add.left_commute)
  with nx show ?case by (rule returns_exec_Next)
next
  case (3 fn cs)
  let ?w1 = "after c (index (cur c w)) [] [fn] w"
  from 3 have "returns (\<lambda>k. exec k cs c ?w1)
      (after c (index (cur c ?w1) + int (count_next cs)) [] (pushed cs) ?w1)"
    by (intro "3.IH") simp_all
  with 3 have "returns (\<lambda>k. exec k cs c ?w1)
      (after c (index (cur c w) + int (count_next (CallPush fn # cs))) [] (pushed (CallPush fn # cs)) w)"
    by (simp add: after_after)
  with push_after [OF "3.prems"(2), of fn] show ?case by (rule returns_exec_Push)
next
  case (4 ms cs)
  then show ?case by simp
qed

section \<open>The cursor inside the chain\<close>

lemma no_next_takeWhile:
  "count_next cs = 0 \<Longrightarrow> takeWhile (\<lambda>x. x \<noteq> CallNext) cs = cs \<and> dropWhile (\<lambda>x. x \<noteq> CallNext) cs = []"
  by (induction cs rule: count_next.induct) simp_all

lemma nexts_Cons [simp]: "nexts (m # ms) = count_next (body m) + nexts ms"
  by (simp add: nexts_def)

lemma nexts_Nil [simp]: "nexts [] = 0"
  by (simp add: nexts_def)

lemma nexts_append [simp]: "nexts (xs @ ys) = nexts xs + nexts ys"
  by (simp add: nexts_def)

text \<open>
  The body of the handler at index \<open>i\<close>, run while the rest of the chain is still to
  come: up to its first call of Next it only pushes; that call runs the rest of the
  chain (the assumption \<open>rest\<close>); what follows finds the chain finished.
\<close>

lemma exec_in_chain:
  assumes rest: "\<And>w. valid c w \<Longrightarrow> managers (cur c w) = ms \<Longrightarrow> index (cur c w) = int (Suc i) \<Longrightarrow>
                   returns (\<lambda>k. Next_loop k (int8 (int (length ms))) c w) (after c F evs ps w)"
    and F: "int8 (int (length ms)) \<le> F" "0 \<le> F"
  shows "no_rerun cs \<Longrightarrow> valid c w \<Longrightarrow> managers (cur c w) = ms \<Longrightarrow> index (cur c w) = int i \<Longrightarrow>
         F + int (count_next cs) \<le> 127 \<Longrightarrow> int (Suc i) \<le> 127 \<Longrightarrow>
         returns (\<lambda>k. exec k cs c w)
           (if count_next cs = 0 then after c (int i) [] (pushed cs) w
            else after c (F + int (count_next cs) - 1) evs
                   (pushed (takeWhile (\<lambda>x. x \<noteq> CallNext) cs) @ ps @
                    pushed (dropWhile (\<lambda>x. x \<noteq> CallNext) cs)) w)"
proof (induction cs arbitrary: w rule: no_rerun.induct)
  case 1
  then show ?case by (simp add: after_id returns_exec_Nil)
next
  case (2 cs)
  let ?w1 = "after c (int (Suc i)) [] [] w"
  let ?w2 = "after c F evs ps w"
  from 2 have "int8 (index (cur c w) + 1) = int (Suc i)"
    by (simp add: int8_id)
  moreover from 2 have "returns (\<lambda>k. Next_loop k (int8 (int (length ms))) c ?w1) (after c F evs ps ?w1)"
    by (intro rest) simp_all
  ultimately have nx: "returns (\<lambda>k. Next k c w) ?w2"
    using 2 by (intro returns_Next) (simp_all add: after_after)
  from 2 F have "returns (\<lambda>k. exec k cs c ?w2)
      (after c (index (cur c ?w2) + int (count_next cs)) [] (pushed cs) ?w2)"
    by (intro exec_past_end) simp_all
  with 2 have "returns (\<lambda>k. exec k cs c ?w2)
      (after c (F + int (count_next (CallNext # cs)) - 1) evs (ps @ pushed cs) w)"
    by (simp add: after_after)
  with nx have "returns (\<lambda>k. exec k (CallNext # cs) c w)
      (after c (F + int (count_next (CallNext # cs)) - 1) evs (ps @ pushed cs) w)"
    by (rule returns_exec_Next)
  then show ?case by simp
next
  case (3 fn cs)
  let ?w1 = "after c (int i) [] [fn] w"
  from 3 have pu: "push c fn w = Returns ?w1"
    by (simp add: push_after)
  from 3 have ih: "returns (\<lambda>k. exec k cs c ?w1)
           (if count_next cs = 0 then after c (int i) [] (pushed cs) ?w1
            else after c (F + int (count_next cs) - 1) evs
                   (pushed (takeWhile (\<lambda>x. x \<noteq> CallNext) cs) @ ps @
                    pushed (dropWhile (\<lambda>x. x \<noteq> CallNext) cs)) ?w1)"
    by (intro "3.IH") simp_all
  show ?case
  proof (cases "count_next cs = 0")
    case True
    with ih "3.prems"(2) have "returns (\<lambda>k. exec k cs c ?w1) (after c (int i) [] (fn # pushed cs) w)"
      by (simp add: after_after)
    with pu have "returns (\<lambda>k. exec k (CallPush fn # cs) c w) (after c (int i) [] (fn # pushed cs) w)"
      by (rule returns_exec_Push)
    with True show ?thesis by simp
  next
    case False
    with ih "3.prems"(2) have "returns (\<lambda>k. exec k cs c ?w1)
        (after c (F + int (count_next cs) - 1) evs
           (fn # pushed (takeWhile (\<lambda>x. x \<noteq> CallNext) cs) @ ps @
            pushed (dropWhile (\<lambda>x. x \<noteq> CallNext) cs)) w)"
      by (simp add: after_after)
    with pu have "returns (\<lambda>k. exec k (CallPush fn # cs) c w)
        (after c (F + int (count_next cs) - 1) evs
           (fn # pushed (takeWhile (\<lambda>x. x \<noteq> CallNext) cs) @ ps @
            pushed (dropWhile (\<lambda>x. x \<noteq> CallNext) cs)) w)"
      by (rule returns_exec_Push)
    with False show ?thesis by simp
  qed
next
  case (4 ms cs)
  then show ?case by simp
qed

lemma loop_runs:
  "valid c w \<Longrightarrow> managers (cur c w) = ms \<Longrightarrow> index (cur c w) = int i \<Longrightarrow>
   hs = drop i (take (nat (int8 (int (length ms)))) ms) \<Longrightarrow> i \<le> nat (int8 (int (length ms))) \<Longrightarrow>
   (\<forall>h \<in> set hs. no_rerun (body h)) \<Longrightarrow>
   int i + int (length hs) + int (nexts hs) \<le> 127 \<Longrightarrow>
   returns (\<lambda>k. Next_loop k (int8 (int (length ms))) c w)
     (after c (int i + int (length hs) + int (nexts hs)) (map Handler hs) (chain_pushes hs) w)"
proof (induction hs arbitrary: i w)
  case Nil
  let ?s = "int8 (int (length ms))"
  from Nil.prems(4) have "nat ?s \<le> i"
    using int8_length_le [of "length ms"] by simp
  with Nil.prems have "\<not> index (cur c w) < ?s" by simp
  then have "returns (\<lambda>k. Next_loop k ?s c w) w"
    by (rule returns_loop_exit)
  with Nil.prems show ?case by (simp add: after_id)
next
  case (Cons h hs)
  let ?s = "int8 (int (length ms))"
  let ?run = "take (nat ?s) ms"
  let ?F = "int (Suc i) + int (length hs) + int (nexts hs)"
  let ?cs = "body h"
  from Cons.prems(4) have len: "length (h # hs) = length ?run - i"
    by (metis length_drop)
  then have i: "i < length ?run" by (simp del: length_take)
  then have i_s: "i < nat ?s" and i_ms: "i < length ms" by simp_all
  from Cons.prems(4) i have h: "ms ! i = h" and hs: "hs = drop (Suc i) ?run"
    by (metis Cons_nth_drop_Suc list.inject nth_take i_s)+
  from len int8_length_le [of "length ms"] have total: "int (Suc i) + int (length hs) = ?s"
    by simp
  have rest: "returns (\<lambda>k. Next_loop k ?s c v) (after c ?F (map Handler hs) (chain_pushes hs) v)"
    if "valid c v" "managers (cur c v) = ms" "index (cur c v) = int (Suc i)" for v
    using that hs i_s Cons.prems(6,7) by (intro Cons.IH) simp_all
  have F: "?s \<le> ?F" "0 \<le> ?F" using total by simp_all
  let ?v = "emit (Handler h) w"
  have v: "valid c ?v" "managers (cur c ?v) = ms" "index (cur c ?v) = int i"
    using Cons.prems by simp_all
  have ev: "?v = after c (int i) [Handler h] [] w"
    using Cons.prems by (simp add: emit_after)
  from Cons.prems(6,7) have pre: "no_rerun ?cs" "?F + int (count_next ?cs) \<le> 127" "int (Suc i) \<le> 127"
    by simp_all
  note body = exec_in_chain [of c ms i ?F "map Handler hs" "chain_pushes hs" ?cs ?v,
      OF rest F pre(1) v pre(2,3)]
  show ?case
  proof (cases "count_next ?cs = 0")
    case True
    let ?w1 = "after c (int i) [Handler h] (pushed ?cs) w"
    from True body Cons.prems(1) have b: "returns (\<lambda>k. exec k ?cs c ?v) ?w1"
      by (simp add: ev after_after)
    have step: "set_cur c ((cur c ?w1)\<lparr>index := int8 (index (cur c ?w1) + 1)\<rparr>) ?w1
        = after c (int (Suc i)) [Handler h] (pushed ?cs) w"
      using Cons.prems(1) pre(3) by (simp add: move_after after_after int8_id add.commute)
    from Cons.prems(1,2) have "returns (\<lambda>k. Next_loop k ?s c (after c (int (Suc i)) [Handler h] (pushed ?cs) w))
        (after c ?F (map Handler hs) (chain_pushes hs) (after c (int (Suc i)) [Handler h] (pushed ?cs) w))"
      by (intro rest) simp_all
    with Cons.prems(1) have l: "returns (\<lambda>k. Next_loop k ?s c
          (set_cur c ((cur c ?w1)\<lparr>index := int8 (index (cur c ?w1) + 1)\<rparr>) ?w1))
        (after c ?F (Handler h # map Handler hs) (pushed ?cs @ chain_pushes hs) w)"
      unfolding step by (simp add: after_after)
    have "returns (\<lambda>k. Next_loop k ?s c w)
        (after c ?F (Handler h # map Handler hs) (pushed ?cs @ chain_pushes hs) w)"
      by (rule returns_loop_step [OF _ _ _ _ b l]) (use Cons.prems(2,3) i_s i_ms h in simp_all)
    with True show ?thesis
      by (simp add: no_next_takeWhile add.commute add.left_commute)
  next
    case False
    let ?ps = "pushed (takeWhile (\<lambda>x. x \<noteq> CallNext) ?cs) @ chain_pushes hs @
               pushed (dropWhile (\<lambda>x. x \<noteq> CallNext) ?cs)"
    let ?w1 = "after c (?F + int (count_next ?cs) - 1) (Handler h # map Handler hs) ?ps w"
    from False body Cons.prems(1) have b: "returns (\<lambda>k. exec k ?cs c ?v) ?w1"
      by (simp add: ev after_after)
    from F pre(2) have i8: "int8 (?F + int (count_next ?cs) - 1 + 1) = ?F + int (count_next ?cs)"
      by (simp add: int8_id)
    have step: "set_cur c ((cur c ?w1)\<lparr>index := int8 (index (cur c ?w1) + 1)\<rparr>) ?w1
        = after c (?F + int (count_next ?cs)) (Handler h # map Handler hs) ?ps w"
      using Cons.prems(1) i8 by (simp add: move_after after_after)
    have "\<not> index (cur c (after c (?F + int (count_next ?cs)) (Handler h # map Handler hs) ?ps w)) < ?s"
      using Cons.prems(1) F by simp
    then have l: "returns (\<lambda>k. Next_loop k ?s c
          (set_cur c ((cur c ?w1)\<lparr>index := int8 (index (cur c ?w1) + 1)\<rparr>) ?w1))
        (after c (?F + int (count_next ?cs)) (Handler h # map Handler hs) ?ps w)"
      unfolding step by (rule returns_loop_exit)
    have "returns (\<lambda>k. Next_loop k ?s c w)
        (after c (?F + int (count_next ?cs)) (Handler h # map Handler hs) ?ps w)"
      by (rule returns_loop_step [OF _ _ _ _ b l]) (use Cons.prems(2,3) i_s i_ms h in simp_all)
    then show ?thesis
      by (simp add: add.commute add.left_commute)
  qed
qed

lemma Next_runs:
  assumes "valid c w" "index (cur c w) = - 1" "managers (cur c w) = ms"
    and "hs = take (nat (int8 (int (length ms)))) ms"
    and "\<forall>h \<in> set hs. no_rerun (body h)"
    and "int (length hs) + int (nexts hs) \<le> 127"
  shows "returns (\<lambda>k. Next k c w)
           (after c (int (length hs) + int (nexts hs)) (map Handler hs) (chain_pushes hs) w)"
proof (rule returns_Next [OF assms(1)])
  let ?w1 = "after c 0 [] [] w"
  have "returns (\<lambda>k. Next_loop k (int8 (int (length ms))) c ?w1)
     (after c (int 0 + int (length hs) + int (nexts hs)) (map Handler hs) (chain_pushes hs) ?w1)"
    using assms by (intro loop_runs) simp_all
  with assms show "returns (\<lambda>k. Next_loop k (int8 (int (length (managers (cur c w))))) c
       (after c (int8 (index (cur c w) + 1)) [] [] w))
     (after c (int (length hs) + int (nexts hs)) (map Handler hs) (chain_pushes hs) w)"
    by (simp add: after_after int8_id)
qed

lemma short_chain: "length ms \<le> 127 \<Longrightarrow> take (nat (int8 (int (length ms)))) ms = ms"
  by (simp add: int8_id)

lemma finalizers_run:
  "(\<forall>f \<in> set fs. no_rerun (body f)) \<Longrightarrow> valid c w \<Longrightarrow>
   int8 (int (length (managers (cur c w)))) \<le> index (cur c w) \<Longrightarrow> - 128 \<le> index (cur c w) \<Longrightarrow>
   index (cur c w) + int (nexts fs) \<le> 127 \<Longrightarrow>
   returns (\<lambda>k. for_deferred k fs c w)
     (after c (index (cur c w) + int (nexts fs)) (map Finalizer fs)
        (concat (map (\<lambda>f. pushed (body f)) fs)) w)"
proof (induction fs arbitrary: w)
  case Nil
  then show ?case by (simp add: after_id returns_const)
next
  case (Cons f fs)
  let ?m = "index (cur c w)"
  let ?v = "after c ?m [Finalizer f] [] w"
  let ?w1 = "after c (?m + int (count_next (body f))) [Finalizer f] (pushed (body f)) w"
  have ev: "emit (Finalizer f) w = ?v"
    using Cons.prems by (simp add: emit_after)
  from Cons.prems have "returns (\<lambda>k. exec k (body f) c ?v)
      (after c (index (cur c ?v) + int (count_next (body f))) [] (pushed (body f)) ?v)"
    by (intro exec_past_end) simp_all
  with Cons.prems(2) have b: "returns (\<lambda>k. exec k (body f) c (emit (Finalizer f) w)) ?w1"
    by (simp add: ev after_after)
  from Cons.prems have "returns (\<lambda>k. for_deferred k fs c ?w1)
     (after c (index (cur c ?w1) + int (nexts fs)) (map Finalizer fs)
        (concat (map (\<lambda>f. pushed (body f)) fs)) ?w1)"
    by (intro Cons.IH) simp_all
  with Cons.prems(2) have "returns (\<lambda>k. for_deferred k fs c ?w1)
     (after c (?m + int (nexts (f # fs))) (map Finalizer (f # fs))
        (concat (map (\<lambda>f. pushed (body f)) (f # fs))) w)"
    by (simp add: after_after add.commute add.left_commute)
  with b show ?case by (rule returns_for_deferred_Cons)
qed

lemma valid_world0 [simp]: "valid ctx0 (world0 ms)"
  by (simp add: valid_def ctx0_def world0_def)

lemma cur_world0 [simp]: "cur ctx0 (world0 ms) = \<lparr>index = - 1, managers = ms, deferred = []\<rparr>"
  by (simp add: cur_def ctx0_def world0_def)

lemma trace_world0 [simp]: "trace (world0 ms) = []"
  by (simp add: world0_def)

section \<open>Next\<close>

text \<open>
  Claim C4, as amended: let the chain \<open>ms\<close> be bound, the index at the sentinel -1, and
  let the handlers call only \<open>Next\<close> and \<open>push\<close>. If the length of the chain plus the
  number of calls of \<open>Next\<close> its handlers make is at most 127 (the index is an \<open>int8\<close>, and
  every call of \<open>Next\<close> increments it once more), then \<open>Next\<close> returns, having invoked
  exactly the handlers of the chain, each once, in index order, whether or not they call
  \<open>Next\<close> themselves; the index ends at the length plus the number of those calls.
\<close>

theorem Next_runs_chain_in_order:
  assumes "valid c w" "index (cur c w) = - 1" "managers (cur c w) = ms"
    and "\<forall>h \<in> set ms. no_rerun (body h)"
    and "int (length ms) + int (nexts ms) \<le> 127"
  shows "\<exists>w'. returns (\<lambda>k. Next k c w) w' \<and>
              trace w' = trace w @ map Handler ms \<and>
              index (cur c w') = int (length ms) + int (nexts ms) \<and>
              managers (cur c w') = ms"
proof -
  from assms(5) have "length ms \<le> 127" by simp
  then have "take (nat (int8 (int (length ms)))) ms = ms" by (rule short_chain)
  then have "returns (\<lambda>k. Next k c w)
      (after c (int (length ms) + int (nexts ms)) (map Handler ms) (chain_pushes ms) w)"
    by (intro Next_runs [OF assms(1,2,3) _ assms(4,5)]) (rule sym)
  with assms(1,3) show ?thesis
    by (intro exI [of _ "after c (int (length ms) + int (nexts ms)) (map Handler ms) (chain_pushes ms) w"]) simp
qed

theorem Next_runs_chain_in_order_witness:
  "valid ctx0 (world0 [Manage ''log'' [CallNext], Manage ''auth'' []]) \<and>
   index (cur ctx0 (world0 [Manage ''log'' [CallNext], Manage ''auth'' []])) = - 1 \<and>
   (\<exists>w'. returns (\<lambda>k. Next k ctx0 (world0 [Manage ''log'' [CallNext], Manage ''auth'' []])) w' \<and>
         trace w' = [Handler (Manage ''log'' [CallNext]), Handler (Manage ''auth'' [])] \<and>
         index (cur ctx0 w') = 3)"
proof -
  let ?ms = "[Manage ''log'' [CallNext], Manage ''auth'' []]"
  have h: "valid ctx0 (world0 ?ms)" "index (cur ctx0 (world0 ?ms)) = - 1"
    "managers (cur ctx0 (world0 ?ms)) = ?ms" "\<forall>h \<in> set ?ms. no_rerun (body h)"
    "int (length ?ms) + int (nexts ?ms) \<le> 127"
    by simp_all
  from Next_runs_chain_in_order [OF h] h(1,2) show ?thesis
    by auto
qed

text \<open>
  The claim as stated fails for a chain of 128 handlers: the length converts to -128 and
  \<open>Next\<close> returns without invoking any of them.
\<close>

theorem Next_skips_chain_of_128:
  "length (replicate 128 (Manage ''h'' [])) = 128 \<and>
   (\<exists>w'. returns (\<lambda>k. Next k ctx0 (world0 (replicate 128 (Manage ''h'' [])))) w' \<and> trace w' = [])"
proof -
  let ?ms = "replicate 128 (Manage ''h'' [])"
  have tk: "[] = take (nat (int8 (int (length ?ms)))) ?ms"
    by (simp add: int8_def)
  have "returns (\<lambda>k. Next k ctx0 (world0 ?ms))
          (after ctx0 (int (length ([]::manage list)) + int (nexts [])) (map Handler []) (chain_pushes []) (world0 ?ms))"
    by (rule Next_runs [OF _ _ _ tk]) simp_all
  then show ?thesis
    by (intro conjI exI [of _ "after ctx0 0 [] [] (world0 ?ms)"]) simp_all
qed

text \<open>
  Claim C10, as amended: the chain length is read as an \<open>int8\<close>. \<open>Next\<close>, started at the
  sentinel, invokes exactly the first \<open>int8 (length ms)\<close> handlers (none when that is not
  positive), provided that those handlers call only \<open>Next\<close> and \<open>push\<close> (not \<open>rerun\<close>) and
  that their number plus the number of calls of \<open>Next\<close> they make is at most 127; so a chain of at most 127 handlers runs whole, a chain of 128
  handlers converts to -128 and runs no handler, and for a longer chain the handlers
  invoked depend on the length modulo 256.
\<close>

theorem Next_length_is_int8:
  assumes "valid c w" "index (cur c w) = - 1" "managers (cur c w) = ms"
    and "\<forall>h \<in> set (take (nat (int8 (int (length ms)))) ms). no_rerun (body h)"
    and "int (length (take (nat (int8 (int (length ms)))) ms)) +
         int (nexts (take (nat (int8 (int (length ms)))) ms)) \<le> 127"
  shows "\<exists>w'. returns (\<lambda>k. Next k c w) w' \<and>
              trace w' = trace w @ map Handler (take (nat (int8 (int (length ms)))) ms) \<and>
              (length ms \<le> 127 \<longrightarrow> trace w' = trace w @ map Handler ms) \<and>
              (length ms = 128 \<longrightarrow> int8 (int (length ms)) = - 128 \<and> trace w' = trace w)"
proof -
  let ?hs = "take (nat (int8 (int (length ms)))) ms"
  let ?w' = "after c (int (length ?hs) + int (nexts ?hs)) (map Handler ?hs) (chain_pushes ?hs) w"
  from assms have "returns (\<lambda>k. Next k c w) ?w'"
    by (intro Next_runs) simp_all
  moreover have "trace ?w' = trace w @ map Handler ?hs" by simp
  moreover have "trace ?w' = trace w @ map Handler ms" if "length ms \<le> 127"
    using short_chain [OF that] by simp
  moreover have "int8 (int (length ms)) = - 128 \<and> trace ?w' = trace w" if "length ms = 128"
    using that by (simp add: int8_def)
  ultimately show ?thesis by blast
qed

theorem Next_length_is_int8_witness:
  "length (Manage ''a'' [CallNext] # Manage ''b'' [] # replicate 256 (Manage ''h'' [])) = 258 \<and>
   int8 258 = 2 \<and>
   no_rerun (body (Manage ''a'' [CallNext])) \<and> no_rerun (body (Manage ''b'' [])) \<and>
   (\<exists>w'. returns (\<lambda>k. Next k ctx0
              (world0 (Manage ''a'' [CallNext] # Manage ''b'' [] # replicate 256 (Manage ''h'' [])))) w' \<and>
         trace w' = [Handler (Manage ''a'' [CallNext]), Handler (Manage ''b'' [])]) \<and>
   length (replicate 128 (Manage ''h'' [])) = 128 \<and>
   int8 128 = - 128 \<and>
   (\<exists>w'. returns (\<lambda>k. Next k ctx0 (world0 (replicate 128 (Manage ''h'' [])))) w' \<and> trace w' = [])"
proof -
  let ?ms = "Manage ''a'' [CallNext] # Manage ''b'' [] # replicate 256 (Manage ''h'' [])"
  let ?ns = "replicate 128 (Manage ''h'' [])"
  have tk: "take (nat (int8 (int (length ?ms)))) ?ms = [Manage ''a'' [CallNext], Manage ''b'' []]"
    by (simp add: int8_def numeral_2_eq_2)
  have tn: "take (nat (int8 (int (length ?ns)))) ?ns = []"
    by (simp add: int8_def)
  have h: "valid ctx0 (world0 ?ms)" "index (cur ctx0 (world0 ?ms)) = - 1"
    "managers (cur ctx0 (world0 ?ms)) = ?ms"
    "\<forall>h \<in> set (take (nat (int8 (int (length ?ms)))) ?ms). no_rerun (body h)"
    "int (length (take (nat (int8 (int (length ?ms)))) ?ms)) +
       int (nexts (take (nat (int8 (int (length ?ms)))) ?ms)) \<le> 127"
    unfolding tk by simp_all
  have g: "valid ctx0 (world0 ?ns)" "index (cur ctx0 (world0 ?ns)) = - 1"
    "managers (cur ctx0 (world0 ?ns)) = ?ns"
    "\<forall>h \<in> set (take (nat (int8 (int (length ?ns)))) ?ns). no_rerun (body h)"
    "int (length (take (nat (int8 (int (length ?ns)))) ?ns)) +
       int (nexts (take (nat (int8 (int (length ?ns)))) ?ns)) \<le> 127"
    unfolding tn by simp_all
  from Next_length_is_int8 [OF h] obtain w' where
    a: "returns (\<lambda>k. Next k ctx0 (world0 ?ms)) w'"
       "trace w' = trace (world0 ?ms) @ map Handler (take (nat (int8 (int (length ?ms)))) ?ms)"
    by blast
  from a(2) have a2: "trace w' = [Handler (Manage ''a'' [CallNext]), Handler (Manage ''b'' [])]"
    unfolding tk by simp
  from Next_length_is_int8 [OF g] obtain v' where
    b: "returns (\<lambda>k. Next k ctx0 (world0 ?ns)) v'"
       "length ?ns = 128 \<longrightarrow> int8 (int (length ?ns)) = - 128 \<and> trace v' = trace (world0 ?ns)"
    by blast
  from b(2) have b2: "trace v' = []" by simp
  have n: "int8 258 = 2" "int8 128 = - 128" by (simp_all add: int8_def)
  from a(1) a2 b(1) b2 n show ?thesis
    by (intro conjI exI [of _ w'] exI [of _ v']) simp_all
qed

text \<open>
  The claim as stated ("for every chain of length at most 127") fails for a chain of 127
  handlers whose first handler calls \<open>Next\<close>: after the inner call the index is 127, the
  increment of the outer loop wraps it to -128, which is below the length, and the index
  expression panics.
\<close>

theorem Next_chain_of_127_reentrant_panics:
  "length (Manage ''a'' [CallNext] # replicate 126 (Manage ''b'' [])) = 127 \<and>
   Next 300 ctx0 (world0 (Manage ''a'' [CallNext] # replicate 126 (Manage ''b'' []))) =
     Panics IndexOutOfRange"
  by code_simp

section \<open>Rerun\<close>

text \<open>
  Claim C8, as amended: at any cursor state (in particular mid-chain), \<open>rerun\<close> with a
  new chain whose handlers call only \<open>Next\<close> and \<open>push\<close>, and whose length plus number of
  calls of \<open>Next\<close> is at most 127, rewinds the index, binds the new chain and returns
  having invoked exactly the new chain's handlers in order; the old chain is no longer
  bound, so none of its remaining handlers can run.
\<close>

theorem rerun_runs_new_chain:
  assumes "valid c w"
    and "\<forall>h \<in> set new. no_rerun (body h)"
    and "int (length new) + int (nexts new) \<le> 127"
  shows "\<exists>w'. returns (\<lambda>k. rerun k c new w) w' \<and>
              trace w' = trace w @ map Handler new \<and>
              managers (cur c w') = new \<and>
              index (cur c w') = int (length new) + int (nexts new)"
proof -
  let ?w2 = "set_cur c ((cur c w)\<lparr>index := - 1, managers := new\<rparr>) w"
  let ?w' = "after c (int (length new) + int (nexts new)) (map Handler new) (chain_pushes new) ?w2"
  from assms(3) have "length new \<le> 127" by simp
  then have tk: "new = take (nat (int8 (int (length new)))) new" by (simp add: short_chain)
  have "returns (\<lambda>k. Next k c ?w2) ?w'"
    by (rule Next_runs [OF _ _ _ tk assms(2,3)]) (use assms(1) in simp_all)
  with assms(1) have "returns (\<lambda>k. rerun k c new w) ?w'"
    by (rule returns_rerun)
  with assms(1) show ?thesis
    by (intro exI [of _ ?w']) simp
qed

theorem rerun_runs_new_chain_witness:
  "valid ctx0 (after ctx0 0 [Handler (Manage ''old'' [])] [] (world0 [Manage ''old'' [], Manage ''rest'' []])) \<and>
   (\<exists>w'. returns (\<lambda>k. rerun k ctx0 [Manage ''x'' [], Manage ''y'' []]
                    (after ctx0 0 [Handler (Manage ''old'' [])] [] (world0 [Manage ''old'' [], Manage ''rest'' []]))) w' \<and>
         trace w' = [Handler (Manage ''old'' []), Handler (Manage ''x'' []), Handler (Manage ''y'' [])] \<and>
         managers (cur ctx0 w') = [Manage ''x'' [], Manage ''y'' []] \<and>
         index (cur ctx0 w') = 2)"
proof -
  let ?w = "after ctx0 0 [Handler (Manage ''old'' [])] [] (world0 [Manage ''old'' [], Manage ''rest'' []])"
  let ?new = "[Manage ''x'' [], Manage ''y'' []]"
  have h: "valid ctx0 ?w" "\<forall>h \<in> set ?new. no_rerun (body h)"
    "int (length ?new) + int (nexts ?new) \<le> 127"
    by simp_all
  from rerun_runs_new_chain [OF h] h(1) show ?thesis
    by auto
qed

text \<open>
  The claim as stated fails for a new chain of 128 handlers: \<open>rerun\<close> binds it and returns
  without running any of its handlers.
\<close>

theorem rerun_skips_chain_of_128:
  "length (replicate 128 (Manage ''n'' [])) = 128 \<and>
   (\<exists>w'. returns (\<lambda>k. rerun k ctx0 (replicate 128 (Manage ''n'' [])) (world0 [Manage ''old'' []])) w' \<and>
         trace w' = [] \<and> managers (cur ctx0 w') = replicate 128 (Manage ''n'' []))"
proof -
  let ?new = "replicate 128 (Manage ''n'' [])"
  let ?w = "world0 [Manage ''old'' []]"
  let ?w2 = "set_cur ctx0 ((cur ctx0 ?w)\<lparr>index := - 1, managers := ?new\<rparr>) ?w"
  have tk: "[] = take (nat (int8 (int (length ?new)))) ?new"
    by (simp add: int8_def)
  have "returns (\<lambda>k. Next k ctx0 ?w2)
          (after ctx0 (int (length ([]::manage list)) + int (nexts [])) (map Handler []) (chain_pushes []) ?w2)"
    by (rule Next_runs [OF _ _ _ tk]) simp_all
  then have "returns (\<lambda>k. rerun k ctx0 ?new ?w) (after ctx0 0 [] [] ?w2)"
    by (intro returns_rerun) simp_all
  then show ?thesis
    by (intro conjI exI [of _ "after ctx0 0 [] [] ?w2"]) simp_all
qed

section \<open>Run\<close>

text \<open>
  Claim C5, as amended: let the chain \<open>ms\<close> be bound and the index at the sentinel, let
  handlers and finalizers call only \<open>Next\<close> and \<open>push\<close>, and let the length of the chain
  plus the number of calls of \<open>Next\<close> made by handlers and finalizers be at most 127. Then
  \<open>Run\<close> returns; it appends the release finalizer before the chain advances, and after
  the last handler invocation it executes every finalizer registered by then (those
  registered before, the release finalizer, those pushed by the handlers) exactly once,
  in append order. This includes the empty chain and a chain whose first handler does
  not call \<open>Next\<close>.
\<close>

theorem Run_finalizers_after_chain:
  assumes "valid c w" "index (cur c w) = - 1" "managers (cur c w) = ms"
    and "\<forall>h \<in> set ms. no_rerun (body h)"
    and "fins = deferred (cur c w) @ release # chain_pushes ms"
    and "\<forall>f \<in> set fins. no_rerun (body f)"
    and "int (length ms) + int (nexts ms) + int (nexts fins) \<le> 127"
  shows "\<exists>w'. returns (\<lambda>k. Run k release c w) w' \<and>
              trace w' = trace w @ map Handler ms @ map Finalizer fins"
proof -
  let ?F = "int (length ms) + int (nexts ms)"
  let ?w1 = "after c (- 1) [] [release] w"
  let ?w2 = "after c ?F (map Handler ms) (release # chain_pushes ms) w"
  let ?w3 = "after c (?F + int (nexts fins)) (map Finalizer fins)
               (concat (map (\<lambda>f. pushed (body f)) fins)) ?w2"
  from assms(7) have "length ms \<le> 127" by simp
  then have s: "int8 (int (length ms)) = int (length ms)"
    and tk: "take (nat (int8 (int (length ms)))) ms = ms"
    by (simp_all add: int8_id)
  from assms(1,2) have pu: "push c release w = Returns ?w1"
    by (simp add: push_after)
  have "returns (\<lambda>k. Next k c ?w1)
      (after c ?F (map Handler ms) (chain_pushes ms) ?w1)"
    by (rule Next_runs [OF _ _ _ tk [symmetric] assms(4)]) (use assms(1,3,7) in simp_all)
  with assms(1) have nx: "returns (\<lambda>k. Next k c ?w1) ?w2"
    by (simp add: after_after)
  from assms(1,5) have d: "deferred (cur c ?w2) = fins" by simp
  from assms s have "returns (\<lambda>k. for_deferred k fins c ?w2)
      (after c (index (cur c ?w2) + int (nexts fins)) (map Finalizer fins)
        (concat (map (\<lambda>f. pushed (body f)) fins)) ?w2)"
    by (intro finalizers_run) simp_all
  with assms(1) d have fin: "returns (\<lambda>k. for_deferred k (deferred (cur c ?w2)) c ?w2) ?w3"
    by simp
  from pu nx fin have "returns (\<lambda>k. Run k release c w) ?w3"
    by (rule returns_Run)
  then show ?thesis
    by (intro exI [of _ ?w3]) simp
qed

theorem Run_finalizers_after_chain_witness:
  "valid ctx0 (world0 [Manage ''log'' [CallPush (Manage ''flush'' []), CallNext], Manage ''auth'' []]) \<and>
   (\<exists>w'. returns (\<lambda>k. Run k (Manage ''release'' []) ctx0
                    (world0 [Manage ''log'' [CallPush (Manage ''flush'' []), CallNext], Manage ''auth'' []])) w' \<and>
         trace w' = [Handler (Manage ''log'' [CallPush (Manage ''flush'' []), CallNext]),
                     Handler (Manage ''auth'' []),
                     Finalizer (Manage ''release'' []), Finalizer (Manage ''flush'' [])])"
proof -
  let ?ms = "[Manage ''log'' [CallPush (Manage ''flush'' []), CallNext], Manage ''auth'' []]"
  let ?fins = "[Manage ''release'' [], Manage ''flush'' []]"
  have h: "valid ctx0 (world0 ?ms)" "index (cur ctx0 (world0 ?ms)) = - 1"
    "managers (cur ctx0 (world0 ?ms)) = ?ms" "\<forall>h \<in> set ?ms. no_rerun (body h)"
    "?fins = deferred (cur ctx0 (world0 ?ms)) @ Manage ''release'' [] # chain_pushes ?ms"
    "\<forall>f \<in> set ?fins. no_rerun (body f)"
    "int (length ?ms) + int (nexts ?ms) + int (nexts ?fins) \<le> 127"
    by simp_all
  from Run_finalizers_after_chain [OF h] h(1) show ?thesis
    by auto
qed

text \<open>
  The claim as stated fails where \<open>Next\<close> panics, since \<open>Run\<close> then executes no finalizer,
  not even the release finalizer: for a chain of 127 handlers whose first handler calls
  \<open>Next\<close>, and for a chain of four handlers whose first handler calls \<open>rerun\<close> with a chain
  of one (the outer loop keeps the old length 4 and indexes the new chain at 2).
\<close>

theorem Run_panics_before_finalizers:
  "Run 300 (Manage ''release'' []) ctx0
     (world0 (Manage ''a'' [CallNext] # replicate 126 (Manage ''b'' []))) = Panics IndexOutOfRange \<and>
   Run 10 (Manage ''release'' []) ctx0
     (world0 [Manage ''a'' [CallRerun [Manage ''x'' []]], Manage ''b'' [], Manage ''c'' [],
              Manage ''d'' []]) = Panics IndexOutOfRange"
  by code_simp

section \<open>Replicate\<close>

lemma propagateCancel_open:
  assumes "p < length h" "\<not> mu (h ! p)" "donec (h ! p) = Some Open" "err (h ! p) = None"
  shows "\<exists>h'. propagateCancel n p child h = Returns h' \<and> length h' = length h \<and>
               set (keys (children (h' ! p))) = insert child (set (keys (children (h ! p)))) \<and>
               (\<forall>x. x \<noteq> p \<longrightarrow> h' ! x = h ! x)"
  using assms by (simp add: propagateCancel_def Let_def upd_upd_same)

lemma same_cursor:
  assumes "ctx_handlers r = ctx_handlers c"
  shows "Next k r v = Next k c v \<and> Next_loop k s r v = Next_loop k s c v \<and>
         rerun k r ms v = rerun k c ms v \<and> exec k cs r v = exec k cs c v"
proof (induction k arbitrary: v s ms cs)
  case 0
  show ?case by simp
next
  case (Suc k)
  have eq: "valid r = valid c" "cur r = cur c" "set_cur r = set_cur c" "push r = push c"
    using assms by (auto simp: valid_def cur_def set_cur_def push_def fun_eq_iff)
  have "Next (Suc k) r v = Next (Suc k) c v"
    by (simp add: eq Suc.IH Let_def)
  moreover have "Next_loop (Suc k) s r v = Next_loop (Suc k) s c v"
    by (simp add: eq Suc.IH Let_def cong: outcome.case_cong)
  moreover have "rerun (Suc k) r ms v = rerun (Suc k) c ms v"
    by (simp add: eq Suc.IH Let_def)
  moreover have "exec (Suc k) cs r v = exec (Suc k) cs c v"
  proof (cases cs)
    case Nil
    then show ?thesis by simp
  next
    case (Cons x xs)
    then show ?thesis by (cases x) (simp_all add: eq Suc.IH cong: outcome.case_cong)
  qed
  ultimately show ?case by blast
qed

text \<open>
  Claim C9, as amended: for a context whose node is not yet cancelled, \<open>replicate\<close>
  returns a new context that shares the original's request, response writer, session and
  data bag references and also its \<open>handlers\<close> pointer, and that owns a fresh cancellation
  node (open, parent the original's node) registered among the children of the
  original's node. The cursor is therefore the parent's cursor: \<open>Next\<close> on the replica
  is \<open>Next\<close> on the parent.
\<close>

theorem replicate_shares_cursor:
  assumes "ctx_context c = Some p" "p < length (contexts w)" "\<not> mu (contexts w ! p)"
    and "donec (contexts w ! p) = Some Open" "err (contexts w ! p) = None"
  shows "\<exists>r w1.
           replicate_ctx n c w = Returns (r, w1) \<and>
           ctx_Request r = ctx_Request c \<and> ctx_RW r = ctx_RW c \<and> ctx_rw r = ctx_rw c \<and>
           ctx_Data r = ctx_Data c \<and> ctx_Session r = ctx_Session c \<and>
           ctx_context r = Some (length (contexts w)) \<and> ctx_context r \<noteq> ctx_context c \<and>
           contexts w1 ! length (contexts w) =
             \<lparr>parent = Some p, mu = False, children = None, donec = Some Open, err = None\<rparr> \<and>
           length (contexts w) \<in> set (keys (children (contexts w1 ! p))) \<and>
           ctx_handlers r = ctx_handlers c \<and> cursors w1 = cursors w \<and> trace w1 = trace w \<and>
           (\<forall>k v. Next k r v = Next k c v)"
proof -
  let ?child = "length (contexts w)"
  let ?h = "contexts w @ [\<lparr>parent = ctx_context c, mu = False, children = None, donec = Some Open, err = None\<rparr>]"
  from assms have "\<exists>h'. propagateCancel n p ?child ?h = Returns h' \<and> length h' = length ?h \<and>
               set (keys (children (h' ! p))) = insert ?child (set (keys (children (?h ! p)))) \<and>
               (\<forall>x. x \<noteq> p \<longrightarrow> h' ! x = ?h ! x)"
    by (intro propagateCancel_open) (simp_all add: nth_append)
  then obtain h1 where pc: "propagateCancel n p ?child ?h = Returns h1"
    and kids: "?child \<in> set (keys (children (h1 ! p)))"
    and other: "\<And>x. x \<noteq> p \<Longrightarrow> h1 ! x = ?h ! x"
    by auto
  from assms(2) have ch: "h1 ! ?child = ?h ! ?child"
    by (intro other) simp
  let ?r = "c\<lparr>ctx_context := Some ?child\<rparr>"
  have "replicate_ctx n c w = Returns (?r, w\<lparr>contexts := h1\<rparr>)"
    using assms(1) pc by (simp add: replicate_ctx_def Let_def)
  moreover have "Next k ?r v = Next k c v" for k v
    using same_cursor [of ?r c k v] by simp
  ultimately show ?thesis
    using assms kids ch by (intro exI [of _ ?r] exI [of _ "w\<lparr>contexts := h1\<rparr>"]) simp
qed

theorem replicate_shares_cursor_witness:
  "ctx_context ctx0 = Some 0 \<and>
   (\<exists>r w1. replicate_ctx 0 ctx0 (world0 []) = Returns (r, w1) \<and>
           ctx_Request r = ctx_Request ctx0 \<and> ctx_RW r = ctx_RW ctx0 \<and> ctx_Data r = ctx_Data ctx0 \<and>
           ctx_context r = Some 1 \<and> 1 \<in> set (keys (children (contexts w1 ! 0))) \<and>
           ctx_handlers r = ctx_handlers ctx0 \<and> (\<forall>k v. Next k r v = Next k ctx0 v))"
proof -
  have h: "ctx_context ctx0 = Some 0" "0 < length (contexts (world0 []))"
    "\<not> mu (contexts (world0 []) ! 0)" "donec (contexts (world0 []) ! 0) = Some Open"
    "err (contexts (world0 []) ! 0) = None"
    by (simp_all add: ctx0_def world0_def node0_def)
  have "length (contexts (world0 [])) = 1" by (simp add: world0_def)
  with replicate_shares_cursor [OF h, of 0] h(1) show ?thesis
    by auto
qed

text \<open>
  The claim as stated ("advancing the replica's cursor leaves the parent's cursor state
  unchanged") fails: after \<open>Next\<close> on the replica the parent's index has moved from -1
  to 1.
\<close>

theorem replica_Next_moves_parent_cursor:
  "(case replicate_ctx 0 ctx0 (world0 [Manage ''h'' []]) of
      Returns (r, w1) \<Rightarrow>
        (case Next 3 r w1 of
           Returns w2 \<Rightarrow> index (cur ctx0 w1) = - 1 \<and> index (cur ctx0 w2) = 1
         | Panics p \<Rightarrow> False | Blocks \<Rightarrow> False | OutOfFuel \<Rightarrow> False)
    | Panics p \<Rightarrow> False | Blocks \<Rightarrow> False | OutOfFuel \<Rightarrow> False)"
  by code_simp

end
